theory Spec2Isabelle
  imports Main
begin

section \<open>Python values and errors\<close>

text \<open>
  The services pass dictionaries around. A dictionary field that the code reads with
  \<^verbatim>\<open>d.get(key)\<close> is modelled as an option: \<open>None\<close> is the absent key. The offsets of an
  entity are scalar values of four kinds: the explicit \<^verbatim>\<open>None\<close>, an integer (a \<^verbatim>\<open>bool\<close> is
  an integer in Python), a finite float and a string. A finite float is a dyadic fraction:
  \<open>PyFloat m k\<close> is the float of value \<open>m / 2 ^ k\<close>. The infinities, NaN and values of
  other types (lists, dictionaries) are not represented.
\<close>

datatype pyval = PyNone | PyInt int | PyFloat int nat | PyStr string

text \<open>An exception, with the text of \<^verbatim>\<open>str(e)\<close>.\<close>

datatype py_error = TypeError string | KeyError string | ValueError string

fun str_of_error :: "py_error \<Rightarrow> string" where
  "str_of_error (TypeError m) = m"
| "str_of_error (KeyError m) = m"
| "str_of_error (ValueError m) = m"

text \<open>\<^verbatim>\<open>d.get(key)\<close> and \<^verbatim>\<open>d.get(key, default)\<close> on a field.\<close>

definition py_get :: "pyval option \<Rightarrow> pyval" where
  "py_get f = (case f of None \<Rightarrow> PyNone | Some v \<Rightarrow> v)"

definition py_get_default :: "'a option \<Rightarrow> 'a \<Rightarrow> 'a" where
  "py_get_default f d = (case f of None \<Rightarrow> d | Some v \<Rightarrow> v)"

text \<open>
  Slicing \<^verbatim>\<open>s[:i]\<close> and \<^verbatim>\<open>s[i:]\<close> with an integer bound: a negative bound counts from
  the end, and every bound is clamped to the string.
\<close>

definition slice_bound :: "int \<Rightarrow> nat \<Rightarrow> nat" where
  "slice_bound i n = (if i < 0 then nat (max 0 (int n + i)) else min (nat i) n)"

definition slice_to :: "'a list \<Rightarrow> int \<Rightarrow> 'a list" where
  "slice_to s i = take (slice_bound i (length s)) s"

definition slice_from :: "'a list \<Rightarrow> int \<Rightarrow> 'a list" where
  "slice_from s i = drop (slice_bound i (length s)) s"

text \<open>Strings compare character by character, by code.\<close>

fun str_lt :: "string \<Rightarrow> string \<Rightarrow> bool" where
  "str_lt [] [] = False"
| "str_lt [] (b # bs) = True"
| "str_lt (a # as) [] = False"
| "str_lt (a # as) (b # bs) =
     ((of_char a :: nat) < of_char b \<or> (a = b \<and> str_lt as bs))"

text \<open>
  \<^verbatim>\<open><\<close> between two values. Numbers compare by value, an integer with a float exactly,
  without conversion: \<open>a < m / 2 ^ k\<close> is \<open>a * 2 ^ k < m\<close>. Strings compare with strings.
  Every other pair raises a TypeError: \<^verbatim>\<open>None\<close> with anything (also with \<^verbatim>\<open>None\<close>), and
  a string with a number.
\<close>

fun py_lt :: "pyval \<Rightarrow> pyval \<Rightarrow> py_error + bool" where
  "py_lt (PyInt a) (PyInt b) = Inr (a < b)"
| "py_lt (PyInt a) (PyFloat n j) = Inr (a * 2 ^ j < n)"
| "py_lt (PyFloat m k) (PyInt b) = Inr (m < b * 2 ^ k)"
| "py_lt (PyFloat m k) (PyFloat n j) = Inr (m * 2 ^ j < n * 2 ^ k)"
| "py_lt (PyStr a) (PyStr b) = Inr (str_lt a b)"
| "py_lt a b = Inl (TypeError ''not supported between instances'')"

text \<open>
  \<^verbatim>\<open>sorted(xs, key=k, reverse=True)\<close>: the stable sort into descending key order. Elements
  with equal keys keep their input order, a list of fewer than two elements is returned
  without any comparison, and a comparison that raises aborts the sort. The result is
  computed here by stable insertion from the left.
\<close>

fun insert_reverse :: "('a \<Rightarrow> pyval) \<Rightarrow> 'a \<Rightarrow> 'a list \<Rightarrow> py_error + 'a list" where
  "insert_reverse k x [] = Inr [x]"
| "insert_reverse k x (y # ys) =
     (case py_lt (k y) (k x) of
        Inl e \<Rightarrow> Inl e
      | Inr True \<Rightarrow> Inr (x # y # ys)
      | Inr False \<Rightarrow>
          (case insert_reverse k x ys of Inl e \<Rightarrow> Inl e | Inr zs \<Rightarrow> Inr (y # zs)))"

fun sorted_reverse_acc :: "('a \<Rightarrow> pyval) \<Rightarrow> 'a list \<Rightarrow> 'a list \<Rightarrow> py_error + 'a list" where
  "sorted_reverse_acc k acc [] = Inr acc"
| "sorted_reverse_acc k acc (x # xs) =
     (case insert_reverse k x acc of
        Inl e \<Rightarrow> Inl e
      | Inr acc' \<Rightarrow> sorted_reverse_acc k acc' xs)"

definition sorted_reverse :: "('a \<Rightarrow> pyval) \<Rightarrow> 'a list \<Rightarrow> py_error + 'a list" where
  "sorted_reverse k xs = sorted_reverse_acc k [] xs"

section \<open>Entities and text redaction\<close>

text \<open>
  A PII entity as the redaction service reads it: the keys \<^verbatim>\<open>start\<close>, \<^verbatim>\<open>end\<close>,
  \<^verbatim>\<open>entity\<close> and \<^verbatim>\<open>bbox\<close>, each of which may be absent.
\<close>

record entity =
  e_start :: "pyval option"
  e_end :: "pyval option"
  e_entity :: "string option"
  e_bbox :: "int list option"

text \<open>The sort key \<^verbatim>\<open>e.get("start", 0)\<close>.\<close>

definition start_key :: "entity \<Rightarrow> pyval" where
  "start_key e = py_get_default (e_start e) (PyInt 0)"

definition redaction_marker :: "entity \<Rightarrow> string" where
  "redaction_marker e = ''[REDACTED_'' @ py_get_default (e_entity e) ''UNKNOWN'' @ '']''"

text \<open>
  One pass of the loop body of \<^verbatim>\<open>redact_text_entities\<close>: an entity whose start or end is
  \<^verbatim>\<open>None\<close> is skipped; slicing with a bound that is not an integer raises.
\<close>

definition redact_entity :: "string \<Rightarrow> entity \<Rightarrow> py_error + string" where
  "redact_entity redacted_text e =
     (let start_v = py_get (e_start e); end_v = py_get (e_end e) in
      if start_v \<noteq> PyNone \<and> end_v \<noteq> PyNone then
        (case (start_v, end_v) of
           (PyInt s, PyInt t) \<Rightarrow>
             Inr (slice_to redacted_text s @ redaction_marker e @ slice_from redacted_text t)
         | _ \<Rightarrow> Inl (TypeError ''slice indices must be integers''))
      else Inr redacted_text)"

fun redact_loop :: "string \<Rightarrow> entity list \<Rightarrow> py_error + string" where
  "redact_loop redacted_text [] = Inr redacted_text"
| "redact_loop redacted_text (e # es) =
     (case redact_entity redacted_text e of
        Inl err \<Rightarrow> Inl err
      | Inr t \<Rightarrow> redact_loop t es)"

text \<open>The body of the \<^verbatim>\<open>try\<close> block, and the function with its handler.\<close>

definition redact_text_try :: "string \<Rightarrow> entity list \<Rightarrow> py_error + string" where
  "redact_text_try text entities =
     (case sorted_reverse start_key entities of
        Inl err \<Rightarrow> Inl err
      | Inr sorted_entities \<Rightarrow> redact_loop text sorted_entities)"

definition redact_text_entities :: "string \<Rightarrow> entity list \<Rightarrow> string" where
  "redact_text_entities text entities =
     (case redact_text_try text entities of Inl err \<Rightarrow> text | Inr redacted_text \<Rightarrow> redacted_text)"


subsection \<open>Spans and their replacement, for stating what text redaction computes\<close>

text \<open>
  An entity has a valid span in a text when both offsets are integers with
  \<open>0 \<le> start < end \<le> len(text)\<close>. Two spans are disjoint when one ends before the other
  starts. \<open>replace_spans\<close> walks a list of entities from left to right and copies the text
  outside the spans, putting each entity's marker in place of its span; it is the
  reference against which the descending-order splicing of the code is compared.
  \<open>insert_desc\<close> is \<open>insert_reverse\<close> on integer keys, where no comparison raises.
\<close>

definition int_span :: "entity \<Rightarrow> (int \<times> int) option" where
  "int_span e = (case (e_start e, e_end e) of
      (Some (PyInt s), Some (PyInt t)) \<Rightarrow> Some (s, t) | _ \<Rightarrow> None)"

definition valid_span :: "string \<Rightarrow> entity \<Rightarrow> bool" where
  "valid_span text e = (case int_span e of
      Some (s, t) \<Rightarrow> 0 \<le> s \<and> s < t \<and> t \<le> int (length text) | None \<Rightarrow> False)"

definition span_start :: "entity \<Rightarrow> nat" where
  "span_start e = (case int_span e of Some (s, t) \<Rightarrow> nat s | None \<Rightarrow> 0)"

definition span_end :: "entity \<Rightarrow> nat" where
  "span_end e = (case int_span e of Some (s, t) \<Rightarrow> nat t | None \<Rightarrow> 0)"

definition disjoint_spans :: "entity \<Rightarrow> entity \<Rightarrow> bool" where
  "disjoint_spans a b = (span_end a \<le> span_start b \<or> span_end b \<le> span_start a)"

fun replace_spans :: "string \<Rightarrow> nat \<Rightarrow> entity list \<Rightarrow> string" where
  "replace_spans text pos [] = drop pos text"
| "replace_spans text pos (e # es) =
     take (span_start e - pos) (drop pos text) @ redaction_marker e
       @ replace_spans text (span_end e) es"

fun insert_desc :: "('a \<Rightarrow> int) \<Rightarrow> 'a \<Rightarrow> 'a list \<Rightarrow> 'a list" where
  "insert_desc f x [] = [x]"
| "insert_desc f x (y # ys) = (if f y < f x then x # y # ys else y # insert_desc f x ys)"

section \<open>Image redaction\<close>

text \<open>
  An image is its size and the filled rectangles drawn on it so far, each with its two
  corners and its colour. The imaging library is a parameter: opening a path gives an
  image or raises (\<open>None\<close>), \<^verbatim>\<open>draw.rectangle\<close> draws or raises on corners it refuses, and
  saving to a fresh temporary file gives the file's name or raises (\<open>None\<close>).
\<close>

record image =
  img_width :: int
  img_height :: int
  img_fills :: "((int \<times> int) \<times> (int \<times> int) \<times> string) list"

record imaging =
  open_image :: "string option \<Rightarrow> image option"
  rectangle_ok :: "(int \<times> int) \<Rightarrow> (int \<times> int) \<Rightarrow> bool"
  save_image :: "image \<Rightarrow> string option"

record redacted_area =
  ra_entity_type :: string
  ra_bbox :: "int list"

definition draw_rectangle ::
  "imaging \<Rightarrow> image \<Rightarrow> (int \<times> int) \<Rightarrow> (int \<times> int) \<Rightarrow> string \<Rightarrow> py_error + image" where
  "draw_rectangle lib img c1 c2 fill =
     (if rectangle_ok lib c1 c2
      then Inr (img\<lparr>img_fills := img_fills img @ [(c1, c2, fill)]\<rparr>)
      else Inl (ValueError ''rectangle refused''))"

text \<open>
  The loop of \<^verbatim>\<open>redact_image\<close> over the entities: an entity with a \<^verbatim>\<open>bbox\<close> of four
  numbers gets a rectangle, padded by 5 pixels and clamped to the image, and an entry in
  \<^verbatim>\<open>redacted_areas\<close>; any other entity is passed over.
\<close>

fun redact_areas ::
  "imaging \<Rightarrow> string \<Rightarrow> image \<Rightarrow> redacted_area list \<Rightarrow> entity list
     \<Rightarrow> py_error + (image \<times> redacted_area list)" where
  "redact_areas lib redaction_color img redacted_areas [] = Inr (img, redacted_areas)"
| "redact_areas lib redaction_color img redacted_areas (entity # rest) =
     (case e_bbox entity of
        Some [x, y, width, height] \<Rightarrow>
          (let x1 = max 0 (x - 5);
               y1 = max 0 (y - 5);
               x2 = min (img_width img) (x + width + 5);
               y2 = min (img_height img) (y + height + 5)
           in case draw_rectangle lib img (x1, y1) (x2, y2) redaction_color of
                Inl err \<Rightarrow> Inl err
              | Inr img' \<Rightarrow>
                  redact_areas lib redaction_color img'
                    (redacted_areas @
                       [\<lparr>ra_entity_type = py_get_default (e_entity entity) ''UNKNOWN'',
                         ra_bbox = [x1, y1, x2 - x1, y2 - y1]\<rparr>])
                    rest)
      | _ \<Rightarrow> redact_areas lib redaction_color img redacted_areas rest)"

text \<open>
  \<^verbatim>\<open>redact_image\<close> returns the path of the redacted image and the redacted areas; on any
  exception it returns the original path and no areas. The second component of the
  model is the effect: the temporary file written and the image in it, if any.
\<close>

definition redact_image ::
  "imaging \<Rightarrow> string option \<Rightarrow> entity list \<Rightarrow> string
     \<Rightarrow> (string option \<times> redacted_area list) \<times> (string \<times> image) option" where
  "redact_image lib image_path pii_entities redaction_color =
     (case open_image lib image_path of
        None \<Rightarrow> ((image_path, []), None)
      | Some img \<Rightarrow>
          (case redact_areas lib redaction_color img [] pii_entities of
             Inl err \<Rightarrow> ((image_path, []), None)
           | Inr (img', redacted_areas) \<Rightarrow>
               (case save_image lib img' of
                  None \<Rightarrow> ((image_path, []), None)
                | Some tmp \<Rightarrow> ((Some tmp, redacted_areas), Some (tmp, img')))))"


section \<open>Redacting a document\<close>

text \<open>
  The three inputs of \<^verbatim>\<open>RedactionService.process_document\<close>. The value under the key
  \<^verbatim>\<open>pages\<close> of the OCR results is a list of pages, or the page count that
  \<^verbatim>\<open>OCRService.process_document\<close> stores under that key.
\<close>

record doc_page =
  dp_page_num :: "int option"
  dp_temp_path :: "string option"

record document_data =
  dd_status :: "string option"
  dd_processed_pages :: "doc_page list option"

record ocr_page =
  op_page_num :: "int option"
  op_text :: "string option"

datatype ocr_pages = OcrPageList "ocr_page list" | OcrPageCount int

record ocr_results =
  or_status :: "string option"
  or_pages :: "ocr_pages option"

record pii_page =
  pp_status :: "string option"
  pp_message :: "string option"
  pp_entities :: "entity list option"

record pii_results =
  pr_status :: "string option"
  pr_results :: "pii_page list option"

text \<open>An entry of \<^verbatim>\<open>redacted_pages\<close>; a key that the entry does not have is \<open>None\<close>.\<close>

record page_result =
  res_page_num :: int
  res_status :: string
  res_message :: "string option"
  res_redacted_text :: "string option"
  res_redacted_path :: "string option option"
  res_redactions :: "nat option"
  res_redacted_areas :: "redacted_area list option"

definition error_page :: "int \<Rightarrow> string \<Rightarrow> page_result" where
  "error_page n msg =
     \<lparr>res_page_num = n, res_status = ''error'', res_message = Some msg,
      res_redacted_text = None, res_redacted_path = None, res_redactions = None,
      res_redacted_areas = None\<rparr>"

text \<open>
  The variables of the loop over the pages, and the temporary files written so far
  (the effect of the calls of \<^verbatim>\<open>redact_image\<close>).
\<close>

record redaction_state =
  redacted_pages :: "page_result list"
  total_redactions :: nat
  redacted_texts :: "(int \<times> string) list"
  written_files :: "(string \<times> image) list"

definition find_doc_page :: "document_data \<Rightarrow> int \<Rightarrow> doc_page option" where
  "find_doc_page document_data n =
     find (\<lambda>p. dp_page_num p = Some n) (py_get_default (dd_processed_pages document_data) [])"

definition find_ocr_page :: "ocr_results \<Rightarrow> int \<Rightarrow> py_error + ocr_page option" where
  "find_ocr_page ocr n =
     (case or_pages ocr of
        None \<Rightarrow> Inr None
      | Some (OcrPageList ps) \<Rightarrow> Inr (find (\<lambda>p. op_page_num p = Some n) ps)
      | Some (OcrPageCount c) \<Rightarrow> Inl (TypeError ''int object is not iterable''))"

text \<open>
  The body of the \<^verbatim>\<open>try\<close> block for one page. The only statement of the block that can
  raise on these inputs is the search of the OCR pages, which comes before any update of
  the loop variables.
\<close>

definition redact_page_try ::
  "imaging \<Rightarrow> document_data \<Rightarrow> ocr_results \<Rightarrow> redaction_state \<Rightarrow> nat \<Rightarrow> pii_page
     \<Rightarrow> py_error + redaction_state" where
  "redact_page_try lib document_data ocr st page_num pii_page =
     (let n = int page_num + 1 in
      if pp_status pii_page \<noteq> Some ''success'' then
        Inr (st\<lparr>redacted_pages := redacted_pages st @
          [error_page n (''PII detection failed for this page: '' @
             py_get_default (pp_message pii_page) ''Unknown error'')]\<rparr>)
      else
        (case find_doc_page document_data n of
           None \<Rightarrow>
             Inr (st\<lparr>redacted_pages := redacted_pages st @
               [error_page n ''Could not find document page'']\<rparr>)
         | Some doc_page \<Rightarrow>
             (let pii_entities = py_get_default (pp_entities pii_page) [] in
              case find_ocr_page ocr n of
                Inl err \<Rightarrow> Inl err
              | Inr ocr_page \<Rightarrow>
                  (let redacted_text =
                         (case ocr_page of
                            None \<Rightarrow> None
                          | Some op \<Rightarrow>
                              (case op_text op of
                                 None \<Rightarrow> None
                               | Some original_text \<Rightarrow>
                                   if pii_entities \<noteq> []
                                   then Some (redact_text_entities original_text pii_entities)
                                   else None));
                       page_result =
                         \<lparr>res_page_num = n, res_status = ''success'', res_message = None,
                          res_redacted_text = redacted_text, res_redacted_path = None,
                          res_redactions = None, res_redacted_areas = None\<rparr>;
                       texts = redacted_texts st @
                         (case redacted_text of None \<Rightarrow> [] | Some t \<Rightarrow> [(n, t)])
                   in
                   if pii_entities = [] then
                     Inr (st\<lparr>redacted_pages := redacted_pages st @
                            [page_result\<lparr>res_message := Some ''No PII entities to redact'',
                               res_redacted_path := Some (dp_temp_path doc_page),
                               res_redactions := Some 0\<rparr>],
                          redacted_texts := texts\<rparr>)
                   else
                     (case redact_image lib (dp_temp_path doc_page) pii_entities ''black'' of
                        ((redacted_image_path, redacted_areas), written) \<Rightarrow>
                          Inr (st\<lparr>redacted_pages := redacted_pages st @
                                 [page_result\<lparr>res_redacted_path := Some redacted_image_path,
                                    res_redactions := Some (length redacted_areas),
                                    res_redacted_areas := Some redacted_areas\<rparr>],
                               total_redactions := total_redactions st + length redacted_areas,
                               redacted_texts := texts,
                               written_files := written_files st @
                                 (case written of None \<Rightarrow> [] | Some w \<Rightarrow> [w])\<rparr>))))))"

text \<open>One turn of the loop: the \<^verbatim>\<open>try\<close> block with its handler.\<close>

definition redact_page ::
  "imaging \<Rightarrow> document_data \<Rightarrow> ocr_results \<Rightarrow> redaction_state \<Rightarrow> nat \<Rightarrow> pii_page
     \<Rightarrow> redaction_state" where
  "redact_page lib document_data ocr st page_num pii_page =
     (case redact_page_try lib document_data ocr st page_num pii_page of
        Inr st' \<Rightarrow> st'
      | Inl err \<Rightarrow>
          st\<lparr>redacted_pages := redacted_pages st @
            [error_page (int page_num + 1) (''Redaction error: '' @ str_of_error err)]\<rparr>)"

fun redact_pages ::
  "imaging \<Rightarrow> document_data \<Rightarrow> ocr_results \<Rightarrow> redaction_state \<Rightarrow> nat \<Rightarrow> pii_page list
     \<Rightarrow> redaction_state" where
  "redact_pages lib document_data ocr st page_num [] = st"
| "redact_pages lib document_data ocr st page_num (pii_page # rest) =
     redact_pages lib document_data ocr
       (redact_page lib document_data ocr st page_num pii_page) (Suc page_num) rest"

text \<open>The result of \<^verbatim>\<open>process_document\<close>: the error dictionary or the report.\<close>

datatype redaction_result =
    RedactionError string
  | RedactionDone nat nat "page_result list" "(int \<times> string) list"

fun result_status :: "redaction_result \<Rightarrow> string" where
  "result_status (RedactionError msg) = ''error''"
| "result_status (RedactionDone n k rps ts) = ''success''"

definition initial_state :: redaction_state where
  "initial_state =
     \<lparr>redacted_pages = [], total_redactions = 0, redacted_texts = [], written_files = []\<rparr>"

definition process_document ::
  "imaging \<Rightarrow> document_data \<Rightarrow> ocr_results \<Rightarrow> pii_results
     \<Rightarrow> redaction_result \<times> (string \<times> image) list" where
  "process_document lib document_data ocr pii =
     (if dd_status document_data \<noteq> Some ''success'' \<or> or_status ocr \<noteq> Some ''success''
         \<or> pr_status pii \<noteq> Some ''success''
      then (RedactionError
              ''Cannot redact document due to preprocessing, OCR, or PII detection errors'', [])
      else
        (let st = redact_pages lib document_data ocr initial_state 0
                    (py_get_default (pr_results pii) [])
         in (RedactionDone (length (redacted_pages st)) (total_redactions st)
               (redacted_pages st) (redacted_texts st),
             written_files st)))"


section \<open>What the report says, for stating the claims about it\<close>

text \<open>
  The fields of the report that \<^verbatim>\<open>process_document\<close> returns; the error dictionary has no
  pages, no page count and no total.
\<close>

fun result_pages :: "redaction_result \<Rightarrow> page_result list" where
  "result_pages (RedactionError msg) = []"
| "result_pages (RedactionDone n k rps ts) = rps"

fun result_page_count :: "redaction_result \<Rightarrow> nat option" where
  "result_page_count (RedactionError msg) = None"
| "result_page_count (RedactionDone n k rps ts) = Some n"

fun result_total_redactions :: "redaction_result \<Rightarrow> nat option" where
  "result_total_redactions (RedactionError msg) = None"
| "result_total_redactions (RedactionDone n k rps ts) = Some k"

text \<open>
  The three statuses that \<^verbatim>\<open>process_document\<close> checks first, the list under the key
  \<^verbatim>\<open>results\<close> of the PII results, and the entities of one of its pages.
\<close>

definition inputs_ok :: "document_data \<Rightarrow> ocr_results \<Rightarrow> pii_results \<Rightarrow> bool" where
  "inputs_ok document_data ocr pii =
     (dd_status document_data = Some ''success'' \<and> or_status ocr = Some ''success''
      \<and> pr_status pii = Some ''success'')"

definition pii_pages :: "pii_results \<Rightarrow> pii_page list" where
  "pii_pages pii = py_get_default (pr_results pii) []"

definition page_entities :: "pii_page \<Rightarrow> entity list" where
  "page_entities pii_page = py_get_default (pp_entities pii_page) []"

text \<open>
  The entry of one page taken alone: what one turn of the loop appends to an empty
  \<^verbatim>\<open>redacted_pages\<close>. \<open>page_entries\<close> is that entry for each page of a list, numbered from 0 as
  \<^verbatim>\<open>enumerate\<close> numbers them. \<open>areas_count\<close> is the length of the \<^verbatim>\<open>redacted_areas\<close> of an
  entry, 0 for an entry without that key.
\<close>

definition page_entry ::
  "imaging \<Rightarrow> document_data \<Rightarrow> ocr_results \<Rightarrow> nat \<Rightarrow> pii_page \<Rightarrow> page_result" where
  "page_entry lib document_data ocr page_num pii_page =
     last (redacted_pages (redact_page lib document_data ocr initial_state page_num pii_page))"

definition page_entries ::
  "imaging \<Rightarrow> document_data \<Rightarrow> ocr_results \<Rightarrow> pii_page list \<Rightarrow> page_result list" where
  "page_entries lib document_data ocr ps =
     map (\<lambda>(i, p). page_entry lib document_data ocr i p) (enumerate 0 ps)"

definition areas_count :: "page_result \<Rightarrow> nat" where
  "areas_count r = (case res_redacted_areas r of None \<Rightarrow> 0 | Some areas \<Rightarrow> length areas)"



text \<open>
  What the claim about the redacted areas expects of \<^verbatim>\<open>redact_image\<close>, in its words. An
  entity carries a box when its \<^verbatim>\<open>bbox\<close> has four elements. The area recorded for it in an
  image of width \<open>W\<close> and height \<open>H\<close> is the box padded by 5 pixels on each side and clamped
  to the image, as left, top, width and height. The rectangle of a recorded area has the
  corners (left, top) and (left + width, top + height).
\<close>

definition has_bbox4 :: "entity \<Rightarrow> bool" where
  "has_bbox4 e = (case e_bbox e of Some [x, y, w, h] \<Rightarrow> True | _ \<Rightarrow> False)"

definition padded_area :: "int \<Rightarrow> int \<Rightarrow> entity \<Rightarrow> redacted_area" where
  "padded_area W H e =
     (case e_bbox e of
        Some [x, y, w, h] \<Rightarrow>
          \<lparr>ra_entity_type = py_get_default (e_entity e) ''UNKNOWN'',
           ra_bbox = [max 0 (x - 5), max 0 (y - 5),
                      min W (x + w + 5) - max 0 (x - 5),
                      min H (y + h + 5) - max 0 (y - 5)]\<rparr>
      | _ \<Rightarrow> \<lparr>ra_entity_type = py_get_default (e_entity e) ''UNKNOWN'', ra_bbox = []\<rparr>)"

definition area_fill :: "string \<Rightarrow> redacted_area \<Rightarrow> (int \<times> int) \<times> (int \<times> int) \<times> string" where
  "area_fill colour a =
     (case ra_bbox a of
        [x1, y1, w, h] \<Rightarrow> ((x1, y1), (x1 + w, y1 + h), colour)
      | _ \<Rightarrow> ((0, 0), (0, 0), colour))"

section \<open>Mapping characters to words\<close>

text \<open>
  A word of the OCR output, as the PII service reads it: the keys \<^verbatim>\<open>word\<close> and \<^verbatim>\<open>bbox\<close>,
  each of which may be absent.
\<close>

record ocr_word =
  w_word :: "string option"
  w_bbox :: "int list option"

text \<open>
  \<^verbatim>\<open>text.find(sub, start)\<close> for a start that is not negative: the lowest index at or after
  \<open>start\<close> where \<open>sub\<close> begins in \<open>text\<close>, and \<open>None\<close> for the result -1. \<open>find_at\<close> walks
  the rest of the text, whose first character has the index \<open>pos\<close>.
\<close>

fun find_at :: "string \<Rightarrow> string \<Rightarrow> nat \<Rightarrow> nat option" where
  "find_at sub [] pos = (if sub = [] then Some pos else None)"
| "find_at sub (c # cs) pos =
     (if take (length sub) (c # cs) = sub then Some pos else find_at sub cs (Suc pos))"

definition py_find :: "string \<Rightarrow> string \<Rightarrow> nat \<Rightarrow> nat option" where
  "py_find text sub start =
     (if start \<le> length text then find_at sub (drop start text) start else None)"

text \<open>
  The body of the loop of \<^verbatim>\<open>_create_char_to_word_map\<close> for the word of index \<open>i\<close>, on the
  pair of \<^verbatim>\<open>char_to_word\<close> and \<^verbatim>\<open>char_pos\<close>, and the loop over the words as
  \<^verbatim>\<open>enumerate\<close> numbers them.
\<close>

definition char_map_step ::
  "string \<Rightarrow> (nat \<rightharpoonup> nat) \<times> nat \<Rightarrow> nat \<Rightarrow> ocr_word \<Rightarrow> (nat \<rightharpoonup> nat) \<times> nat" where
  "char_map_step text st i word =
     (let char_to_word = fst st; char_pos = snd st;
          word_text = py_get_default (w_word word) [] in
      if word_text = [] then st
      else
        (case py_find text word_text char_pos of
           None \<Rightarrow> st
         | Some word_pos \<Rightarrow>
             (fold (\<lambda>j m. m(j \<mapsto> i)) [word_pos..<word_pos + length word_text] char_to_word,
              word_pos + length word_text)))"

fun char_map_loop ::
  "string \<Rightarrow> (nat \<rightharpoonup> nat) \<times> nat \<Rightarrow> nat \<Rightarrow> ocr_word list \<Rightarrow> (nat \<rightharpoonup> nat) \<times> nat" where
  "char_map_loop text st i [] = st"
| "char_map_loop text st i (word # rest) =
     char_map_loop text (char_map_step text st i word) (Suc i) rest"

definition create_char_to_word_map :: "string \<Rightarrow> ocr_word list \<Rightarrow> (nat \<rightharpoonup> nat)" where
  "create_char_to_word_map text words = fst (char_map_loop text (Map.empty, 0) 0 words)"

text \<open>
  For stating what the mapper computes: the text of a word, the cursor before the word of
  index \<open>i\<close> is looked at (the cursor after the loop has run over the first \<open>i\<close> words),
  the position where the search places the word of index \<open>i\<close>, if it is searched and found,
  and the occurrence of a string at a position of the text.
\<close>

definition word_text :: "ocr_word \<Rightarrow> string" where
  "word_text word = py_get_default (w_word word) []"

definition cursor_before :: "string \<Rightarrow> ocr_word list \<Rightarrow> nat \<Rightarrow> nat" where
  "cursor_before text words i = snd (char_map_loop text (Map.empty, 0) 0 (take i words))"

definition found_at :: "string \<Rightarrow> ocr_word list \<Rightarrow> nat \<Rightarrow> nat option" where
  "found_at text words i =
     (if word_text (words ! i) = [] then None
      else py_find text (word_text (words ! i)) (cursor_before text words i))"

definition occurs_at :: "string \<Rightarrow> string \<Rightarrow> nat \<Rightarrow> bool" where
  "occurs_at text sub p = (p + length sub \<le> length text \<and> take (length sub) (drop p text) = sub)"

section \<open>Mapping an entity to words\<close>

text \<open>
  The entity that \<^verbatim>\<open>_map_entity_to_words\<close> returns may have the key \<^verbatim>\<open>words\<close> as well.
\<close>

record mapped_entity = entity +
  e_words :: "string list option"

text \<open>
  The first loop of \<^verbatim>\<open>_map_entity_to_words\<close>: the set of the word indices that the
  mapping gives for the positions of \<^verbatim>\<open>range(start_char, end_char)\<close>. The keys of the
  mapping are character positions, so a negative position is not among them.
\<close>

definition collect_word_indices :: "(nat \<rightharpoonup> nat) \<Rightarrow> int \<Rightarrow> int \<Rightarrow> nat set" where
  "collect_word_indices char_to_word_map start_char end_char =
     fold (\<lambda>char_pos word_indices.
             case (if 0 \<le> char_pos then char_to_word_map (nat char_pos) else None) of
               None \<Rightarrow> word_indices
             | Some v \<Rightarrow> insert v word_indices)
       [start_char..end_char - 1] {}"

text \<open>
  The variables of the second loop. \<^verbatim>\<open>min_x\<close> and \<^verbatim>\<open>min_y\<close> are both
  \<^verbatim>\<open>float('inf')\<close> until the first box is taken and both integers from then on: they are
  one optional pair. \<^verbatim>\<open>max_x\<close> and \<^verbatim>\<open>max_y\<close> start at 0.
\<close>

record box_acc =
  acc_min :: "(int \<times> int) option"
  acc_max_x :: int
  acc_max_y :: int
  acc_words :: "string list"

definition add_word_box :: "ocr_word list \<Rightarrow> nat \<Rightarrow> box_acc \<Rightarrow> box_acc" where
  "add_word_box words idx acc =
     (if idx < length words then
        (let word = words ! idx in
         case w_bbox word of
           Some [x, y, w, h] \<Rightarrow>
             acc\<lparr>acc_min := Some (case acc_min acc of
                                   None \<Rightarrow> (x, y)
                                 | Some (min_x, min_y) \<Rightarrow> (min min_x x, min min_y y)),
                 acc_max_x := max (acc_max_x acc) (x + w),
                 acc_max_y := max (acc_max_y acc) (y + h),
                 acc_words := acc_words acc @ [py_get_default (w_word word) []]\<rparr>
         | _ \<Rightarrow> acc)
      else acc)"

text \<open>
  \<^verbatim>\<open>_map_entity_to_words\<close>. \<^verbatim>\<open>entity['start']\<close> and \<^verbatim>\<open>entity['end']\<close> raise a KeyError
  for an absent key, and \<^verbatim>\<open>range\<close> raises a TypeError for a bound that is not an
  integer. The indices are taken in ascending order (\<^verbatim>\<open>sorted(word_indices)\<close>).
\<close>

definition map_entity_to_words ::
  "mapped_entity \<Rightarrow> (nat \<rightharpoonup> nat) \<Rightarrow> ocr_word list \<Rightarrow> py_error + mapped_entity" where
  "map_entity_to_words entity char_to_word_map words =
     (case e_start entity of
        None \<Rightarrow> Inl (KeyError ''start'')
      | Some start_v \<Rightarrow>
          (case e_end entity of
             None \<Rightarrow> Inl (KeyError ''end'')
           | Some end_v \<Rightarrow>
               (case (start_v, end_v) of
                  (PyInt start_char, PyInt end_char) \<Rightarrow>
                    (let word_indices =
                           collect_word_indices char_to_word_map start_char end_char
                     in
                     if word_indices = {} then Inr entity
                     else
                       (let acc = fold (add_word_box words) (sorted_list_of_set word_indices)
                                    \<lparr>acc_min = None, acc_max_x = 0, acc_max_y = 0,
                                     acc_words = []\<rparr>
                        in
                        case acc_min acc of
                          None \<Rightarrow> Inr entity
                        | Some (min_x, min_y) \<Rightarrow>
                            Inr (entity\<lparr>e_bbox := Some [min_x, min_y, acc_max_x acc - min_x,
                                                       acc_max_y acc - min_y],
                                        e_words := Some (acc_words acc)\<rparr>)))
                | _ \<Rightarrow> Inl (TypeError ''object cannot be interpreted as an integer''))))"

text \<open>
  For stating what the mapping of an entity computes: the word indices that the positions
  of \<open>[start, end)\<close> refer to, the box of a word, and when a box covers another (both as
  left, top, width, height).
\<close>

definition referenced_words :: "(nat \<rightharpoonup> nat) \<Rightarrow> int \<Rightarrow> int \<Rightarrow> nat set" where
  "referenced_words char_to_word_map start_char end_char =
     {v. \<exists>c\<in>{start_char..<end_char}. 0 \<le> c \<and> char_to_word_map (nat c) = Some v}"

definition word_box :: "ocr_word \<Rightarrow> int list" where
  "word_box word = py_get_default (w_bbox word) []"

fun covers :: "int list \<Rightarrow> int list \<Rightarrow> bool" where
  "covers [bx, by, bw, bh] [x, y, w, h] =
     (bx \<le> x \<and> by \<le> y \<and> x + w \<le> bx + bw \<and> y + h \<le> by + bh)"
| "covers b c = False"

text \<open>
  A box in pixel coordinates has a right and a bottom edge that are not negative (its
  left, top, width and height are not negative). \<open>box_of\<close> is the box that the variables of
  the second loop stand for.
\<close>

definition pixel_box :: "int list \<Rightarrow> bool" where
  "pixel_box b = (case b of [x, y, w, h] \<Rightarrow> 0 \<le> x + w \<and> 0 \<le> y + h | _ \<Rightarrow> False)"

definition box_of :: "box_acc \<Rightarrow> int list" where
  "box_of acc = (case acc_min acc of
      None \<Rightarrow> []
    | Some (mx, my) \<Rightarrow> [mx, my, acc_max_x acc - mx, acc_max_y acc - my])"

section \<open>Text redaction: proofs\<close>

lemma insert_reverse_int:
  "\<forall>y\<in>set (x # ys). k y = PyInt (f y) \<Longrightarrow> insert_reverse k x ys = Inr (insert_desc f x ys)"
  by (induction ys) auto

lemma set_insert_desc: "set (insert_desc f x ys) = insert x (set ys)"
  by (induction ys) auto

lemma distinct_insert_desc: "distinct ys \<Longrightarrow> x \<notin> set ys \<Longrightarrow> distinct (insert_desc f x ys)"
  by (induction ys) (auto simp: set_insert_desc)

lemma sorted_insert_desc:
  "sorted_wrt (\<lambda>a b. f b \<le> f a) ys \<Longrightarrow> sorted_wrt (\<lambda>a b. f b \<le> f a) (insert_desc f x ys)"
  by (induction ys) (auto simp: set_insert_desc)

lemma sorted_reverse_acc_int:
  "\<forall>y\<in>set acc \<union> set xs. k y = PyInt (f y) \<Longrightarrow>
   sorted_reverse_acc k acc xs = Inr (foldl (\<lambda>a x. insert_desc f x a) acc xs)"
proof (induction xs arbitrary: acc)
  case Nil
  then show ?case by simp
next
  case (Cons x xs)
  have "insert_reverse k x acc = Inr (insert_desc f x acc)"
    using Cons.prems by (intro insert_reverse_int) auto
  moreover have "\<forall>y\<in>set (insert_desc f x acc) \<union> set xs. k y = PyInt (f y)"
    using Cons.prems by (auto simp: set_insert_desc)
  ultimately show ?case using Cons.IH by simp
qed

lemma foldl_insert_desc_props:
  "sorted_wrt (\<lambda>a b. f b \<le> f a) acc \<Longrightarrow>
   sorted_wrt (\<lambda>a b. f b \<le> f a) (foldl (\<lambda>a x. insert_desc f x a) acc xs)
   \<and> set (foldl (\<lambda>a x. insert_desc f x a) acc xs) = set acc \<union> set xs
   \<and> (distinct (acc @ xs) \<longrightarrow> distinct (foldl (\<lambda>a x. insert_desc f x a) acc xs))"
proof (induction xs arbitrary: acc)
  case Nil
  then show ?case by simp
next
  case (Cons x xs)
  from Cons.IH[OF sorted_insert_desc[OF Cons.prems, of x]]
  show ?case by (auto simp: set_insert_desc distinct_insert_desc)
qed

lemma replace_spans_snoc:
  "\<forall>a\<in>set as. span_start a \<le> span_start e \<Longrightarrow>
   replace_spans T pos (as @ [e]) =
     replace_spans (take (span_start e) T) pos as @ redaction_marker e @ drop (span_end e) T"
proof (induction as arbitrary: pos)
  case Nil
  show ?case by (simp add: drop_take)
next
  case (Cons a as)
  have le: "span_start a \<le> span_start e" using Cons.prems by simp
  have "take (span_start a - pos) (drop pos (take (span_start e) T))
      = take (span_start a - pos) (drop pos T)"
    using le by (simp add: drop_take min_def)
  moreover have "replace_spans T (span_end a) (as @ [e]) =
     replace_spans (take (span_start e) T) (span_end a) as @ redaction_marker e @ drop (span_end e) T"
    using Cons.IH Cons.prems by simp
  ultimately show ?case by simp
qed

lemma valid_spanD:
  assumes "valid_span text e"
  obtains s t where "e_start e = Some (PyInt (int s))" "e_end e = Some (PyInt (int t))"
    "s < t" "t \<le> length text" "span_start e = s" "span_end e = t"
proof -
  from assms obtain s' t' where st: "int_span e = Some (s', t')" "0 \<le> s'" "s' < t'" "t' \<le> int (length text)"
    by (auto simp: valid_span_def split: option.splits)
  then have "e_start e = Some (PyInt s')" "e_end e = Some (PyInt t')"
    by (auto simp: int_span_def split: option.splits pyval.splits)
  then show ?thesis
    using st that[of "nat s'" "nat t'"] by (simp add: span_start_def span_end_def)
qed

lemma redact_entity_valid:
  assumes "valid_span text e" "span_end e \<le> p" "p \<le> length text"
  shows "redact_entity (take p text @ X) e =
     Inr (take (span_start e) text @ redaction_marker e @ drop (span_end e) (take p text) @ X)"
proof -
  from assms(1) obtain s t where st: "e_start e = Some (PyInt (int s))" "e_end e = Some (PyInt (int t))"
    "s < t" "t \<le> length text" "span_start e = s" "span_end e = t"
    by (rule valid_spanD)
  have tp: "t \<le> p" using st assms by simp
  have a: "slice_to (take p text @ X) (int s) = take s text"
    using st tp assms(3) by (simp add: slice_to_def slice_bound_def min_def)
  have b: "slice_from (take p text @ X) (int t) = drop t (take p text) @ X"
    using st tp assms(3) by (simp add: slice_from_def slice_bound_def min_def)
  show ?thesis
    using a b st by (simp add: redact_entity_def py_get_def)
qed

lemma redact_loop_desc:
  assumes "sorted_wrt (\<lambda>a b. span_end b \<le> span_start a) ses"
    and "\<forall>e\<in>set ses. valid_span text e \<and> span_end e \<le> p"
    and "p \<le> length text"
  shows "redact_loop (take p text @ X) ses = Inr (replace_spans (take p text) 0 (rev ses) @ X)"
  using assms
proof (induction ses arbitrary: p X)
  case Nil
  then show ?case by simp
next
  case (Cons e ses)
  let ?s = "span_start e"
  let ?Y = "redaction_marker e @ drop (span_end e) (take p text) @ X"
  have v: "valid_span text e" "span_end e \<le> p" using Cons.prems(2) by auto
  have se: "?s < span_end e" using v(1) by (rule valid_spanD) simp
  have sp: "?s \<le> p" using se v(2) by simp
  have step: "redact_entity (take p text @ X) e = Inr (take ?s text @ ?Y)"
    using redact_entity_valid[OF v Cons.prems(3)] .
  have rest: "\<forall>a\<in>set ses. valid_span text a \<and> span_end a \<le> ?s"
    using Cons.prems(1,2) by auto
  have srt: "sorted_wrt (\<lambda>a b. span_end b \<le> span_start a) ses"
    using Cons.prems(1) by simp
  have sl: "?s \<le> length text" using sp Cons.prems(3) by simp
  have ih: "redact_loop (take ?s text @ ?Y) ses
      = Inr (replace_spans (take ?s text) 0 (rev ses) @ ?Y)"
    using Cons.IH[OF srt rest sl] .
  have starts: "\<forall>a\<in>set (rev ses). span_start a \<le> ?s"
  proof
    fix a assume "a \<in> set (rev ses)"
    then have va: "valid_span text a" and ea: "span_end a \<le> ?s" using rest by auto
    from va have "span_start a < span_end a" by (rule valid_spanD) simp
    then show "span_start a \<le> ?s" using ea by simp
  qed
  have snoc: "replace_spans (take p text) 0 (rev ses @ [e]) =
      replace_spans (take ?s (take p text)) 0 (rev ses) @ redaction_marker e
        @ drop (span_end e) (take p text)"
    using starts by (rule replace_spans_snoc)
  have tk: "take ?s (take p text) = take ?s text" using sp by (simp add: min_def)
  show ?case using step ih snoc tk by simp
qed

lemma redact_loop_whole:
  assumes "sorted_wrt (\<lambda>a b. span_end b \<le> span_start a) ses"
    and "\<forall>e\<in>set ses. valid_span text e"
  shows "redact_loop text ses = Inr (replace_spans text 0 (rev ses))"
proof -
  have "\<forall>e\<in>set ses. valid_span text e \<and> span_end e \<le> length text"
  proof
    fix e assume "e \<in> set ses"
    then have v: "valid_span text e" using assms(2) by simp
    then have "span_end e \<le> length text" by (rule valid_spanD) simp
    then show "valid_span text e \<and> span_end e \<le> length text" using v by simp
  qed
  from redact_loop_desc[OF assms(1) this, of "[]"] show ?thesis by simp
qed

lemma sorted_wrt_distinct_conj:
  "distinct xs \<Longrightarrow> sorted_wrt P xs \<Longrightarrow> sorted_wrt (\<lambda>a b. P a b \<and> a \<noteq> b) xs"
  by (induction xs) auto

lemma valid_start_key: "valid_span text e \<Longrightarrow> start_key e = PyInt (int (span_start e))"
  by (erule valid_spanD) (simp add: start_key_def py_get_default_def)

lemma sorted_reverse_valid:
  assumes v: "\<forall>e\<in>set es. valid_span text e" and d: "distinct es"
    and dj: "\<forall>a\<in>set es. \<forall>b\<in>set es. a \<noteq> b \<longrightarrow> disjoint_spans a b"
  shows "\<exists>ses. sorted_reverse start_key es = Inr ses
      \<and> sorted_wrt (\<lambda>a b. span_end b \<le> span_start a) ses
      \<and> set ses = set es \<and> rev ses = sort_key span_start es"
proof -
  let ?f = "\<lambda>e. int (span_start e)"
  let ?ses = "foldl (\<lambda>a x. insert_desc ?f x a) [] es"
  have keys: "\<forall>y\<in>set [] \<union> set es. start_key y = PyInt (?f y)"
    using v valid_start_key by auto
  have eq: "sorted_reverse start_key es = Inr ?ses"
    unfolding sorted_reverse_def using sorted_reverse_acc_int[OF keys] .
  have props: "sorted_wrt (\<lambda>a b. ?f b \<le> ?f a) ?ses" "set ?ses = set es" "distinct ?ses"
    using foldl_insert_desc_props[of ?f "[]" es] d by auto
  have strict: "\<And>a b. a \<in> set es \<Longrightarrow> b \<in> set es \<Longrightarrow> a \<noteq> b \<Longrightarrow> span_start b \<le> span_start a
      \<Longrightarrow> span_end b \<le> span_start a"
  proof -
    fix a b assume ab: "a \<in> set es" "b \<in> set es" "a \<noteq> b" "span_start b \<le> span_start a"
    have "span_start a < span_end a" using v ab(1) by (auto elim: valid_spanD)
    moreover have "disjoint_spans a b" using dj ab by simp
    ultimately show "span_end b \<le> span_start a" using ab(4) by (auto simp: disjoint_spans_def)
  qed
  have "sorted_wrt (\<lambda>a b. ?f b \<le> ?f a \<and> a \<noteq> b) ?ses"
    using sorted_wrt_distinct_conj[OF props(3) props(1)] .
  then have chain: "sorted_wrt (\<lambda>a b. span_end b \<le> span_start a) ?ses"
    by (rule sorted_wrt_mono_rel[rotated]) (use strict props(2) in auto)
  have inj: "inj_on span_start (set es)"
  proof (rule inj_onI)
    fix a b assume ab: "a \<in> set es" "b \<in> set es" "span_start a = span_start b"
    show "a = b"
    proof (rule ccontr)
      assume ne: "a \<noteq> b"
      have "span_end b \<le> span_start a" using strict[OF ab(1,2) ne] ab(3) by simp
      moreover have "span_start b < span_end b" using v ab(2) by (auto elim: valid_spanD)
      ultimately show False using ab(3) by simp
    qed
  qed
  have s1: "sorted (map span_start (rev ?ses))"
  proof -
    have "sorted_wrt (\<lambda>a b. span_start a \<le> span_start b) (rev ?ses)"
      using props(1) by (simp add: sorted_wrt_rev)
    then show ?thesis by (simp add: sorted_map)
  qed
  have d1: "distinct (map span_start (rev ?ses))"
    using props(2,3) inj by (simp add: distinct_map)
  have d2: "distinct (map span_start (sort_key span_start es))"
    using d inj by (simp add: distinct_map)
  have "map span_start (rev ?ses) = map span_start (sort_key span_start es)"
    by (rule sorted_distinct_set_unique[OF s1 d1 _ d2]) (simp_all add: props(2))
  moreover have "inj_on span_start (set (rev ?ses) \<union> set (sort_key span_start es))"
    using inj props(2) by simp
  ultimately have "rev ?ses = sort_key span_start es"
    by (simp add: inj_on_map_eq_map)
  then show ?thesis using eq chain props(2) by blast
qed

text \<open>
  Claim C1. \<^verbatim>\<open>redact_text_entities\<close> on the text \<^verbatim>\<open>"SSN 123-45-6789 end"\<close> and the
  entity with start 4, end 15 and type SSN returns \<^verbatim>\<open>"SSN [REDACTED_SSN] end"\<close>. For any
  list of distinct entities whose spans are valid in the text (integer offsets with
  \<open>0 \<le> start < end \<le> len(text)\<close>) and pairwise disjoint, the sort succeeds and yields
  the entities in descending start order, and the result is the text in which every
  entity's span is replaced by its marker and everything outside the spans is unchanged
  (\<open>replace_spans\<close> over the entities in ascending start order).
\<close>

theorem redact_text_entities_descending_splice:
  "redact_text_entities ''SSN 123-45-6789 end''
      [\<lparr>e_start = Some (PyInt 4), e_end = Some (PyInt 15), e_entity = Some ''SSN'',
        e_bbox = None\<rparr>] = ''SSN [REDACTED_SSN] end''
   \<and> ((\<forall>e\<in>set entities. valid_span text e) \<and> distinct entities
        \<and> (\<forall>a\<in>set entities. \<forall>b\<in>set entities. a \<noteq> b \<longrightarrow> disjoint_spans a b)
      \<longrightarrow> (\<exists>sorted_entities. sorted_reverse start_key entities = Inr sorted_entities
             \<and> sorted (rev (map span_start sorted_entities))
             \<and> set sorted_entities = set entities
             \<and> redact_loop text sorted_entities
                 = Inr (replace_spans text 0 (sort_key span_start entities)))
          \<and> redact_text_entities text entities
              = replace_spans text 0 (sort_key span_start entities))"
proof (intro conjI impI)
  show "redact_text_entities ''SSN 123-45-6789 end''
      [\<lparr>e_start = Some (PyInt 4), e_end = Some (PyInt 15), e_entity = Some ''SSN'',
        e_bbox = None\<rparr>] = ''SSN [REDACTED_SSN] end''"
    by (simp add: redact_text_entities_def redact_text_try_def sorted_reverse_def
        redact_entity_def py_get_def slice_to_def slice_from_def slice_bound_def
        redaction_marker_def py_get_default_def)
next
  assume h: "(\<forall>e\<in>set entities. valid_span text e) \<and> distinct entities
        \<and> (\<forall>a\<in>set entities. \<forall>b\<in>set entities. a \<noteq> b \<longrightarrow> disjoint_spans a b)"
  then obtain ses where ses: "sorted_reverse start_key entities = Inr ses"
      "sorted_wrt (\<lambda>a b. span_end b \<le> span_start a) ses"
      "set ses = set entities" "rev ses = sort_key span_start entities"
    using sorted_reverse_valid[of entities "text"] by blast
  have "\<forall>e\<in>set ses. valid_span text e" using h ses(3) by simp
  from redact_loop_whole[OF ses(2) this]
  have loop: "redact_loop text ses = Inr (replace_spans text 0 (sort_key span_start entities))"
    using ses(4) by simp
  have srt: "sorted (rev (map span_start ses))"
  proof -
    have "rev (map span_start ses) = map span_start (sort_key span_start entities)"
      by (simp only: rev_map ses(4))
    then show ?thesis by simp
  qed
  show "\<exists>sorted_entities. sorted_reverse start_key entities = Inr sorted_entities
             \<and> sorted (rev (map span_start sorted_entities))
             \<and> set sorted_entities = set entities
             \<and> redact_loop text sorted_entities
                 = Inr (replace_spans text 0 (sort_key span_start entities))"
    using ses(1,3) loop srt by blast
  show "redact_text_entities text entities
              = replace_spans text 0 (sort_key span_start entities)"
    using ses(1) loop by (simp add: redact_text_entities_def redact_text_try_def)
qed

theorem redact_text_entities_descending_splice_witness:
  "redact_text_entities ''abcdefghij''
     [\<lparr>e_start = Some (PyInt 1), e_end = Some (PyInt 3), e_entity = Some ''A'', e_bbox = None\<rparr>,
      \<lparr>e_start = Some (PyInt 5), e_end = Some (PyInt 8), e_entity = Some ''B'', e_bbox = None\<rparr>]
     = ''a[REDACTED_A]de[REDACTED_B]ij''"
proof -
  let ?a = "\<lparr>e_start = Some (PyInt 1), e_end = Some (PyInt 3), e_entity = Some ''A'', e_bbox = None\<rparr>"
  let ?b = "\<lparr>e_start = Some (PyInt 5), e_end = Some (PyInt 8), e_entity = Some ''B'', e_bbox = None\<rparr>"
  have sa: "span_start ?a = 1" "span_end ?a = 3" "span_start ?b = 5" "span_end ?b = 8"
    by (simp_all add: span_start_def span_end_def int_span_def)
  have h: "(\<forall>e\<in>set [?a, ?b]. valid_span ''abcdefghij'' e) \<and> distinct [?a, ?b]
        \<and> (\<forall>a\<in>set [?a, ?b]. \<forall>b\<in>set [?a, ?b]. a \<noteq> b \<longrightarrow> disjoint_spans a b)"
    by (simp add: valid_span_def int_span_def disjoint_spans_def sa)
  have "redact_text_entities ''abcdefghij'' [?a, ?b]
      = replace_spans ''abcdefghij'' 0 (sort_key span_start [?a, ?b])"
    using redact_text_entities_descending_splice[of "[?a, ?b]" "''abcdefghij''"] h by blast
  then show ?thesis by (simp add: sa redaction_marker_def py_get_default_def)
qed

subsection \<open>An entity whose start is an explicit None\<close>

text \<open>
  C2. The claim: for every text and entity list, \<^verbatim>\<open>redact_text_entities\<close> skips an entity
  that lacks a start or an end offset without aborting the pass, and on an exception it
  returns the input text. The loop does skip such an entity (the test
  \<^verbatim>\<open>start is not None and end is not None\<close>), but the sort before the loop takes
  \<^verbatim>\<open>e.get("start", 0)\<close> as key: the default covers the absent key only, and an explicit
  \<^verbatim>\<open>None\<close> is compared with the start of the other entities, which raises. Here the text
  is \<^verbatim>\<open>SSN 123-45-6789 end\<close>, the first entity has start and end \<^verbatim>\<open>None\<close>, the second is
  the SSN at 4 to 15. The sort raises a TypeError, the pass is aborted and the handler
  returns the text with the SSN in it; the same list without the first entity, which is
  what skipping it means, gives the redacted text.
\<close>

theorem redact_text_entities_none_start_aborts:
  "redact_text_try ''SSN 123-45-6789 end''
     [\<lparr>e_start = Some PyNone, e_end = Some PyNone, e_entity = Some ''TEST'', e_bbox = None\<rparr>,
      \<lparr>e_start = Some (PyInt 4), e_end = Some (PyInt 15), e_entity = Some ''SSN'',
       e_bbox = None\<rparr>]
     = Inl (TypeError ''not supported between instances'')
   \<and> redact_text_entities ''SSN 123-45-6789 end''
     [\<lparr>e_start = Some PyNone, e_end = Some PyNone, e_entity = Some ''TEST'', e_bbox = None\<rparr>,
      \<lparr>e_start = Some (PyInt 4), e_end = Some (PyInt 15), e_entity = Some ''SSN'',
       e_bbox = None\<rparr>]
     = ''SSN 123-45-6789 end''
   \<and> redact_text_entities ''SSN 123-45-6789 end''
     [\<lparr>e_start = Some (PyInt 4), e_end = Some (PyInt 15), e_entity = Some ''SSN'',
       e_bbox = None\<rparr>]
     = ''SSN [REDACTED_SSN] end''"
  by (simp add: redact_text_entities_def redact_text_try_def sorted_reverse_def start_key_def
      py_get_default_def py_get_def redact_entity_def redaction_marker_def slice_to_def
      slice_from_def slice_bound_def)

section \<open>The report of a redacted document\<close>

subsection \<open>The rectangles drawn on an image\<close>

lemma draw_rectangle_Inr:
  "draw_rectangle lib img c1 c2 colour = Inr img' \<Longrightarrow>
   img' = img\<lparr>img_fills := img_fills img @ [(c1, c2, colour)]\<rparr>"
  by (simp add: draw_rectangle_def split: if_splits)

lemma padded_area_fill:
  "e_bbox e = Some [x, y, w, h] \<Longrightarrow>
   area_fill colour (padded_area (img_width img) (img_height img) e) =
     ((max 0 (x - 5), max 0 (y - 5)),
      (min (img_width img) (x + w + 5), min (img_height img) (y + h + 5)), colour)"
  by (simp add: area_fill_def padded_area_def)

lemma redact_areas_step4:
  assumes b: "e_bbox e = Some [x, y, w, h]"
    and r: "redact_areas lib colour img areas (e # rest) = Inr res"
  shows "redact_areas lib colour
           (img\<lparr>img_fills := img_fills img @ [area_fill colour (padded_area (img_width img) (img_height img) e)]\<rparr>)
           (areas @ [padded_area (img_width img) (img_height img) e]) rest = Inr res"
proof -
  let ?c1 = "(max 0 (x - 5), max 0 (y - 5))"
  let ?c2 = "(min (img_width img) (x + w + 5), min (img_height img) (y + h + 5))"
  from r b obtain img' where d: "draw_rectangle lib img ?c1 ?c2 colour = Inr img'"
    by (cases "draw_rectangle lib img ?c1 ?c2 colour") (simp_all add: Let_def)
  have i: "img' = img\<lparr>img_fills := img_fills img @ [(?c1, ?c2, colour)]\<rparr>"
    using draw_rectangle_Inr[OF d] .
  have p: "padded_area (img_width img) (img_height img) e = \<lparr>ra_entity_type = py_get_default (e_entity e) ''UNKNOWN'',
           ra_bbox = [max 0 (x - 5), max 0 (y - 5),
                      min (img_width img) (x + w + 5) - max 0 (x - 5),
                      min (img_height img) (y + h + 5) - max 0 (y - 5)]\<rparr>"
    using b by (simp add: padded_area_def)
  show ?thesis using r b d i p padded_area_fill[OF b, of colour img]
    by (simp add: Let_def)
qed

lemma redact_areas_skip:
  assumes "\<not> has_bbox4 e"
  shows "redact_areas lib colour img areas (e # rest) = redact_areas lib colour img areas rest"
  using assms by (simp add: has_bbox4_def split: option.splits list.splits)

lemma has_bbox4D: "has_bbox4 e \<Longrightarrow> \<exists>x y w h. e_bbox e = Some [x, y, w, h]"
  by (simp add: has_bbox4_def split: option.splits list.splits)

lemma redact_areas_Inr:
  "redact_areas lib colour img areas ents = Inr (img', areas') \<Longrightarrow>
   areas' = areas @ map (padded_area (img_width img) (img_height img)) (filter has_bbox4 ents)
   \<and> img_fills img' = img_fills img
        @ map (area_fill colour) (map (padded_area (img_width img) (img_height img)) (filter has_bbox4 ents))
   \<and> img_width img' = img_width img \<and> img_height img' = img_height img"
proof (induction ents arbitrary: img areas)
  case Nil
  then show ?case by simp
next
  case (Cons e rest)
  show ?case
  proof (cases "has_bbox4 e")
    case False
    then have "redact_areas lib colour img areas rest = Inr (img', areas')"
      using Cons.prems redact_areas_skip by simp
    from Cons.IH[OF this] show ?thesis using False by simp
  next
    case True
    then obtain x y w h where b: "e_bbox e = Some [x, y, w, h]" using has_bbox4D by blast
    let ?img1 = "img\<lparr>img_fills := img_fills img @ [area_fill colour (padded_area (img_width img) (img_height img) e)]\<rparr>"
    have "redact_areas lib colour ?img1 (areas @ [padded_area (img_width img) (img_height img) e]) rest = Inr (img', areas')"
      using redact_areas_step4[OF b Cons.prems] .
    from Cons.IH[OF this]
    have ih: "areas' = (areas @ [padded_area (img_width img) (img_height img) e]) @ map (padded_area (img_width ?img1) (img_height ?img1)) (filter has_bbox4 rest)"
      "img_fills img' = img_fills ?img1
        @ map (area_fill colour) (map (padded_area (img_width ?img1) (img_height ?img1)) (filter has_bbox4 rest))"
      "img_width img' = img_width ?img1" "img_height img' = img_height ?img1"
      by simp_all
    show ?thesis using ih True by simp
  qed
qed

lemma redact_image_written:
  assumes "redact_image lib path ents colour = ((p, areas), Some (tmp, img'))"
  shows "p = Some tmp \<and> save_image lib img' = Some tmp
     \<and> (\<exists>img. open_image lib path = Some img
          \<and> areas = map (padded_area (img_width img) (img_height img)) (filter has_bbox4 ents)
          \<and> img_fills img' = img_fills img @ map (area_fill colour) areas
          \<and> img_width img' = img_width img \<and> img_height img' = img_height img)"
proof -
  from assms obtain img where o: "open_image lib path = Some img"
    by (cases "open_image lib path") (simp_all add: redact_image_def)
  from assms o obtain img1 areas1 where
    r: "redact_areas lib colour img [] ents = Inr (img1, areas1)"
    by (cases "redact_areas lib colour img [] ents") (auto simp: redact_image_def)
  from assms o r obtain tmp1 where s: "save_image lib img1 = Some tmp1"
    by (cases "save_image lib img1") (simp_all add: redact_image_def)
  from assms o r s have eq: "p = Some tmp \<and> areas = areas1 \<and> tmp1 = tmp \<and> img1 = img'"
    by (auto simp: redact_image_def)
  from redact_areas_Inr[OF r] show ?thesis using o s eq by simp
qed

lemma redact_image_not_written:
  assumes "redact_image lib path ents colour = ((p, areas), None)"
  shows "p = path \<and> areas = []"
  using assms
  by (auto simp: redact_image_def split: option.splits sum.splits prod.splits)

lemma page_entry_eq:
  "page_entry lib dd ocr i p =
     (let n = int i + 1 in
      if pp_status p \<noteq> Some ''success'' then
        error_page n (''PII detection failed for this page: '' @
             py_get_default (pp_message p) ''Unknown error'')
      else
        (case find_doc_page dd n of
           None \<Rightarrow> error_page n ''Could not find document page''
         | Some doc_page \<Rightarrow>
             (case find_ocr_page ocr n of
                Inl err \<Rightarrow> error_page n (''Redaction error: '' @ str_of_error err)
              | Inr ocr_page \<Rightarrow>
                  (let pii_entities = py_get_default (pp_entities p) [];
                       redacted_text =
                         (case ocr_page of
                            None \<Rightarrow> None
                          | Some op \<Rightarrow>
                              (case op_text op of
                                 None \<Rightarrow> None
                               | Some original_text \<Rightarrow>
                                   if pii_entities \<noteq> []
                                   then Some (redact_text_entities original_text pii_entities)
                                   else None))
                   in
                   if pii_entities = [] then
                     \<lparr>res_page_num = n, res_status = ''success'',
                      res_message = Some ''No PII entities to redact'',
                      res_redacted_text = redacted_text,
                      res_redacted_path = Some (dp_temp_path doc_page),
                      res_redactions = Some 0, res_redacted_areas = None\<rparr>
                   else
                     \<lparr>res_page_num = n, res_status = ''success'', res_message = None,
                      res_redacted_text = redacted_text,
                      res_redacted_path =
                        Some (fst (fst (redact_image lib (dp_temp_path doc_page) pii_entities ''black''))),
                      res_redactions =
                        Some (length (snd (fst (redact_image lib (dp_temp_path doc_page) pii_entities ''black'')))),
                      res_redacted_areas =
                        Some (snd (fst (redact_image lib (dp_temp_path doc_page) pii_entities ''black'')))\<rparr>))))"
  by (auto simp: redact_page_def redact_page_try_def Let_def initial_state_def page_entry_def
      error_page_def split: option.splits sum.splits prod.splits)

lemma redact_page_step:
  "redacted_pages (redact_page lib dd ocr st n p)
     = redacted_pages st @ [page_entry lib dd ocr n p]
   \<and> total_redactions (redact_page lib dd ocr st n p)
     = total_redactions st + areas_count (page_entry lib dd ocr n p)"
  by (auto simp: redact_page_def redact_page_try_def Let_def initial_state_def page_entry_def
      areas_count_def error_page_def
      split: option.splits sum.splits prod.splits)

lemma redact_pages_run:
  "redacted_pages (redact_pages lib dd ocr st n ps)
     = redacted_pages st @ map (\<lambda>(i, p). page_entry lib dd ocr i p) (enumerate n ps)
   \<and> total_redactions (redact_pages lib dd ocr st n ps)
     = total_redactions st
       + sum_list (map (\<lambda>(i, p). areas_count (page_entry lib dd ocr i p)) (enumerate n ps))"
proof (induction ps arbitrary: st n)
  case Nil
  show ?case by simp
next
  case (Cons p ps)
  show ?case using Cons.IH[of "redact_page lib dd ocr st n p" "Suc n"] redact_page_step[of lib dd ocr st n p]
    by simp
qed

lemma length_page_entries: "length (page_entries lib dd ocr ps) = length ps"
  by (simp add: page_entries_def)

lemma nth_page_entries:
  "i < length ps \<Longrightarrow> page_entries lib dd ocr ps ! i = page_entry lib dd ocr i (ps ! i)"
  by (simp add: page_entries_def nth_enumerate_eq)

lemma process_document_run:
  assumes "inputs_ok dd ocr pii"
  shows "\<exists>ts. fst (process_document lib dd ocr pii) =
     RedactionDone (length (pii_pages pii))
       (sum_list (map areas_count (page_entries lib dd ocr (pii_pages pii))))
       (page_entries lib dd ocr (pii_pages pii)) ts"
proof -
  let ?ps = "pii_pages pii"
  let ?st = "redact_pages lib dd ocr initial_state 0 ?ps"
  have run: "redacted_pages ?st = page_entries lib dd ocr ?ps"
    "total_redactions ?st = sum_list (map areas_count (page_entries lib dd ocr ?ps))"
    using redact_pages_run[of lib dd ocr initial_state 0 ?ps]
    by (simp_all add: page_entries_def initial_state_def comp_def case_prod_unfold)
  have "fst (process_document lib dd ocr pii) =
     RedactionDone (length (redacted_pages ?st)) (total_redactions ?st) (redacted_pages ?st)
       (redacted_texts ?st)"
    using assms by (simp add: process_document_def inputs_ok_def pii_pages_def Let_def)
  then show ?thesis using run by (simp add: length_page_entries)
qed

lemma process_document_not_ok:
  assumes "\<not> inputs_ok dd ocr pii"
  shows "\<exists>msg. fst (process_document lib dd ocr pii) = RedactionError msg"
  using assms by (auto simp: process_document_def inputs_ok_def)



lemma page_entry_areas:
  assumes "res_redacted_areas (page_entry lib dd ocr i p) = Some areas"
  shows "\<exists>doc_page path w. find_doc_page dd (int i + 1) = Some doc_page
           \<and> page_entities p \<noteq> []
           \<and> redact_image lib (dp_temp_path doc_page) (page_entities p) ''black''
                = ((path, areas), w)
           \<and> res_redacted_path (page_entry lib dd ocr i p) = Some path
           \<and> res_redactions (page_entry lib dd ocr i p) = Some (length areas)"
  using assms
  by (auto simp: page_entry_eq Let_def error_page_def page_entities_def prod_eq_iff
      split: option.splits sum.splits if_splits)

lemma redact_image_effect:
  assumes "redact_image lib path ents colour = ((p, areas), w)"
  shows "case w of
           None \<Rightarrow> p = path \<and> areas = []
         | Some (tmp, img') \<Rightarrow>
             p = Some tmp \<and> save_image lib img' = Some tmp
             \<and> (\<exists>img. open_image lib path = Some img
                  \<and> areas = map (padded_area (img_width img) (img_height img))
                              (filter has_bbox4 ents)
                  \<and> img_fills img' = img_fills img @ map (area_fill colour) areas)"
proof (cases w)
  case None
  then show ?thesis using redact_image_not_written[of lib path ents colour p areas] assms
    by simp
next
  case (Some a)
  obtain tmp img' where a: "a = (tmp, img')" by (cases a)
  from redact_image_written[of lib path ents colour p areas tmp img'] assms Some a
  show ?thesis by auto
qed


subsection \<open>The document-level status\<close>

text \<open>
  C10. Whenever the document data, the OCR results and the PII results all have status
  \<^verbatim>\<open>success\<close>, the result of \<^verbatim>\<open>process_document\<close> has status \<^verbatim>\<open>success\<close> and its \<^verbatim>\<open>pages\<close> is
  the number of PII page entries, whatever the statuses of the page entries are: there is
  one entry per PII page and no failure of a page changes the status of the document. In
  the instance below both pages have an error entry (the first has a failed PII status,
  the second no source page) and the document status is still \<^verbatim>\<open>success\<close>.
\<close>

theorem process_document_success_status:
  "inputs_ok dd ocr pii \<longrightarrow>
     result_status (fst (process_document lib dd ocr pii)) = ''success''
     \<and> result_page_count (fst (process_document lib dd ocr pii)) = Some (length (pii_pages pii))
     \<and> length (result_pages (fst (process_document lib dd ocr pii))) = length (pii_pages pii)"
proof
  assume "inputs_ok dd ocr pii"
  from process_document_run[OF this, of lib] obtain ts where
    "fst (process_document lib dd ocr pii) =
       RedactionDone (length (pii_pages pii))
         (sum_list (map areas_count (page_entries lib dd ocr (pii_pages pii))))
         (page_entries lib dd ocr (pii_pages pii)) ts" ..
  then show "result_status (fst (process_document lib dd ocr pii)) = ''success''
     \<and> result_page_count (fst (process_document lib dd ocr pii)) = Some (length (pii_pages pii))
     \<and> length (result_pages (fst (process_document lib dd ocr pii))) = length (pii_pages pii)"
    by (simp add: length_page_entries)
qed

theorem process_document_success_status_witness:
  "result_status (fst (process_document
      \<lparr>open_image = (\<lambda>p. None), rectangle_ok = (\<lambda>c1 c2. True), save_image = (\<lambda>img. None)\<rparr>
      \<lparr>dd_status = Some ''success'', dd_processed_pages = Some []\<rparr>
      \<lparr>or_status = Some ''success'', or_pages = Some (OcrPageCount 2)\<rparr>
      \<lparr>pr_status = Some ''success'', pr_results = Some
         [\<lparr>pp_status = Some ''error'', pp_message = Some ''OCR failed'', pp_entities = None\<rparr>,
          \<lparr>pp_status = Some ''success'', pp_message = None, pp_entities = Some []\<rparr>]\<rparr>))
     = ''success''
   \<and> result_page_count (fst (process_document
      \<lparr>open_image = (\<lambda>p. None), rectangle_ok = (\<lambda>c1 c2. True), save_image = (\<lambda>img. None)\<rparr>
      \<lparr>dd_status = Some ''success'', dd_processed_pages = Some []\<rparr>
      \<lparr>or_status = Some ''success'', or_pages = Some (OcrPageCount 2)\<rparr>
      \<lparr>pr_status = Some ''success'', pr_results = Some
         [\<lparr>pp_status = Some ''error'', pp_message = Some ''OCR failed'', pp_entities = None\<rparr>,
          \<lparr>pp_status = Some ''success'', pp_message = None, pp_entities = Some []\<rparr>]\<rparr>))
     = Some 2
   \<and> map res_status (result_pages (fst (process_document
      \<lparr>open_image = (\<lambda>p. None), rectangle_ok = (\<lambda>c1 c2. True), save_image = (\<lambda>img. None)\<rparr>
      \<lparr>dd_status = Some ''success'', dd_processed_pages = Some []\<rparr>
      \<lparr>or_status = Some ''success'', or_pages = Some (OcrPageCount 2)\<rparr>
      \<lparr>pr_status = Some ''success'', pr_results = Some
         [\<lparr>pp_status = Some ''error'', pp_message = Some ''OCR failed'', pp_entities = None\<rparr>,
          \<lparr>pp_status = Some ''success'', pp_message = None, pp_entities = Some []\<rparr>]\<rparr>)))
     = [''error'', ''error'']"
proof -
  let ?lib = "\<lparr>open_image = (\<lambda>p. None), rectangle_ok = (\<lambda>c1 c2. True), save_image = (\<lambda>img. None)\<rparr>"
  let ?dd = "\<lparr>dd_status = Some ''success'', dd_processed_pages = Some []\<rparr>"
  let ?ocr = "\<lparr>or_status = Some ''success'', or_pages = Some (OcrPageCount 2)\<rparr>"
  let ?pii = "\<lparr>pr_status = Some ''success'', pr_results = Some
         [\<lparr>pp_status = Some ''error'', pp_message = Some ''OCR failed'', pp_entities = None\<rparr>,
          \<lparr>pp_status = Some ''success'', pp_message = None, pp_entities = Some []\<rparr>]\<rparr>"
  have ok: "inputs_ok ?dd ?ocr ?pii" by (simp add: inputs_ok_def)
  have n: "length (pii_pages ?pii) = 2" by (simp add: pii_pages_def py_get_default_def)
  have st: "map res_status (result_pages (fst (process_document ?lib ?dd ?ocr ?pii)))
      = [''error'', ''error'']"
    by (simp add: process_document_def redact_page_def redact_page_try_def find_doc_page_def
        py_get_default_def initial_state_def error_page_def Let_def)
  from process_document_success_status[of ?dd ?ocr ?pii ?lib] ok n st show ?thesis by simp
qed


subsection \<open>Failures of single pages\<close>




subsection \<open>The count of redactions\<close>

text \<open>
  C3. In every report, \<^verbatim>\<open>total_redactions\<close> is the sum over the page entries of the
  lengths of their \<^verbatim>\<open>redacted_areas\<close>. An entry with \<^verbatim>\<open>redacted_areas\<close> comes from the call
  of \<^verbatim>\<open>redact_image\<close> on the source page's path and the page's entities: its \<^verbatim>\<open>redactions\<close>
  is the length of the list, and if the call wrote a file, its \<^verbatim>\<open>redacted_path\<close> is that
  file, the list has one area per entity that carries a box of four elements, in order,
  each the padded and clamped box, and the rectangles drawn on the written image are,
  after those already on the source image, exactly the rectangles of the recorded areas.
  If the call wrote no file (it failed), the list is empty and the path is the source
  path: no rectangle is on that page's image and none is recorded.
\<close>

theorem total_redactions_match_drawn_areas:
  "result_total_redactions (fst (process_document lib dd ocr pii)) = Some k \<longrightarrow>
     k = sum_list (map areas_count (result_pages (fst (process_document lib dd ocr pii))))
     \<and> (\<forall>i<length (result_pages (fst (process_document lib dd ocr pii))). \<forall>areas.
          res_redacted_areas (result_pages (fst (process_document lib dd ocr pii)) ! i)
            = Some areas \<longrightarrow>
          res_redactions (result_pages (fst (process_document lib dd ocr pii)) ! i)
            = Some (length areas)
          \<and> (\<exists>doc_page path w.
                find_doc_page dd (int i + 1) = Some doc_page
                \<and> redact_image lib (dp_temp_path doc_page)
                     (page_entities (pii_pages pii ! i)) ''black'' = ((path, areas), w)
                \<and> res_redacted_path (result_pages (fst (process_document lib dd ocr pii)) ! i)
                     = Some path
                \<and> (case w of
                      None \<Rightarrow> path = dp_temp_path doc_page \<and> areas = []
                    | Some (tmp, img') \<Rightarrow>
                        path = Some tmp \<and> save_image lib img' = Some tmp
                        \<and> (\<exists>img. open_image lib (dp_temp_path doc_page) = Some img
                             \<and> areas = map (padded_area (img_width img) (img_height img))
                                         (filter has_bbox4 (page_entities (pii_pages pii ! i)))
                             \<and> img_fills img'
                                 = img_fills img @ map (area_fill ''black'') areas))))"
proof
  let ?R = "result_pages (fst (process_document lib dd ocr pii))"
  let ?ps = "pii_pages pii"
  assume k: "result_total_redactions (fst (process_document lib dd ocr pii)) = Some k"
  have ok: "inputs_ok dd ocr pii"
  proof (rule ccontr)
    assume "\<not> inputs_ok dd ocr pii"
    from process_document_not_ok[OF this, of lib] k show False by auto
  qed
  from process_document_run[OF ok, of lib] obtain ts where run:
    "fst (process_document lib dd ocr pii) =
       RedactionDone (length ?ps) (sum_list (map areas_count (page_entries lib dd ocr ?ps)))
         (page_entries lib dd ocr ?ps) ts" ..
  have rp: "?R = page_entries lib dd ocr ?ps" using run by simp
  have total: "k = sum_list (map areas_count ?R)" using run k by simp
  have pages: "\<forall>i<length ?R. \<forall>areas.
          res_redacted_areas (?R ! i) = Some areas \<longrightarrow>
          res_redactions (?R ! i) = Some (length areas)
          \<and> (\<exists>doc_page path w.
                find_doc_page dd (int i + 1) = Some doc_page
                \<and> redact_image lib (dp_temp_path doc_page)
                     (page_entities (?ps ! i)) ''black'' = ((path, areas), w)
                \<and> res_redacted_path (?R ! i) = Some path
                \<and> (case w of
                      None \<Rightarrow> path = dp_temp_path doc_page \<and> areas = []
                    | Some (tmp, img') \<Rightarrow>
                        path = Some tmp \<and> save_image lib img' = Some tmp
                        \<and> (\<exists>img. open_image lib (dp_temp_path doc_page) = Some img
                             \<and> areas = map (padded_area (img_width img) (img_height img))
                                         (filter has_bbox4 (page_entities (?ps ! i)))
                             \<and> img_fills img'
                                 = img_fills img @ map (area_fill ''black'') areas)))"
  proof (intro allI impI)
    fix i areas
    assume i: "i < length ?R" and a: "res_redacted_areas (?R ! i) = Some areas"
    from i have i': "i < length ?ps" by (simp add: rp length_page_entries)
    have e: "?R ! i = page_entry lib dd ocr i (?ps ! i)"
      using i' by (simp add: rp nth_page_entries)
    from page_entry_areas[of lib dd ocr i "?ps ! i" areas] a e
    obtain doc_page path w where d:
      "find_doc_page dd (int i + 1) = Some doc_page"
      "redact_image lib (dp_temp_path doc_page) (page_entities (?ps ! i)) ''black''
         = ((path, areas), w)"
      "res_redacted_path (?R ! i) = Some path"
      "res_redactions (?R ! i) = Some (length areas)"
      by auto
    from redact_image_effect[OF d(2)] d
    show "res_redactions (?R ! i) = Some (length areas)
          \<and> (\<exists>doc_page path w.
                find_doc_page dd (int i + 1) = Some doc_page
                \<and> redact_image lib (dp_temp_path doc_page)
                     (page_entities (?ps ! i)) ''black'' = ((path, areas), w)
                \<and> res_redacted_path (?R ! i) = Some path
                \<and> (case w of
                      None \<Rightarrow> path = dp_temp_path doc_page \<and> areas = []
                    | Some (tmp, img') \<Rightarrow>
                        path = Some tmp \<and> save_image lib img' = Some tmp
                        \<and> (\<exists>img. open_image lib (dp_temp_path doc_page) = Some img
                             \<and> areas = map (padded_area (img_width img) (img_height img))
                                         (filter has_bbox4 (page_entities (?ps ! i)))
                             \<and> img_fills img'
                                 = img_fills img @ map (area_fill ''black'') areas)))"
      by blast
  qed
  from total pages
  show "k = sum_list (map areas_count ?R) \<and> (\<forall>i<length ?R. \<forall>areas.
          res_redacted_areas (?R ! i) = Some areas \<longrightarrow>
          res_redactions (?R ! i) = Some (length areas)
          \<and> (\<exists>doc_page path w.
                find_doc_page dd (int i + 1) = Some doc_page
                \<and> redact_image lib (dp_temp_path doc_page)
                     (page_entities (?ps ! i)) ''black'' = ((path, areas), w)
                \<and> res_redacted_path (?R ! i) = Some path
                \<and> (case w of
                      None \<Rightarrow> path = dp_temp_path doc_page \<and> areas = []
                    | Some (tmp, img') \<Rightarrow>
                        path = Some tmp \<and> save_image lib img' = Some tmp
                        \<and> (\<exists>img. open_image lib (dp_temp_path doc_page) = Some img
                             \<and> areas = map (padded_area (img_width img) (img_height img))
                                         (filter has_bbox4 (page_entities (?ps ! i)))
                             \<and> img_fills img'
                                 = img_fills img @ map (area_fill ''black'') areas))))"
    by blast
qed

theorem total_redactions_match_drawn_areas_witness:
  "sum_list (map areas_count (result_pages (fst (process_document
      \<lparr>open_image = (\<lambda>p. Some \<lparr>img_width = 100, img_height = 80, img_fills = []\<rparr>),
       rectangle_ok = (\<lambda>c1 c2. True), save_image = (\<lambda>img. Some ''redacted.jpg'')\<rparr>
      \<lparr>dd_status = Some ''success'', dd_processed_pages = Some
         [\<lparr>dp_page_num = Some 1, dp_temp_path = Some ''p1.png''\<rparr>]\<rparr>
      \<lparr>or_status = Some ''success'', or_pages = Some (OcrPageList [])\<rparr>
      \<lparr>pr_status = Some ''success'', pr_results = Some
         [\<lparr>pp_status = Some ''success'', pp_message = None, pp_entities = Some
             [\<lparr>e_start = Some (PyInt 4), e_end = Some (PyInt 15), e_entity = Some ''SSN'',
               e_bbox = Some [10, 20, 30, 40]\<rparr>,
              \<lparr>e_start = Some (PyInt 20), e_end = Some (PyInt 30), e_entity = Some ''DATE'',
               e_bbox = None\<rparr>,
              \<lparr>e_start = Some (PyInt 40), e_end = Some (PyInt 50), e_entity = None,
               e_bbox = Some [90, 70, 30, 40]\<rparr>]\<rparr>]\<rparr>)))) = 2
   \<and> res_redactions (result_pages (fst (process_document
      \<lparr>open_image = (\<lambda>p. Some \<lparr>img_width = 100, img_height = 80, img_fills = []\<rparr>),
       rectangle_ok = (\<lambda>c1 c2. True), save_image = (\<lambda>img. Some ''redacted.jpg'')\<rparr>
      \<lparr>dd_status = Some ''success'', dd_processed_pages = Some
         [\<lparr>dp_page_num = Some 1, dp_temp_path = Some ''p1.png''\<rparr>]\<rparr>
      \<lparr>or_status = Some ''success'', or_pages = Some (OcrPageList [])\<rparr>
      \<lparr>pr_status = Some ''success'', pr_results = Some
         [\<lparr>pp_status = Some ''success'', pp_message = None, pp_entities = Some
             [\<lparr>e_start = Some (PyInt 4), e_end = Some (PyInt 15), e_entity = Some ''SSN'',
               e_bbox = Some [10, 20, 30, 40]\<rparr>,
              \<lparr>e_start = Some (PyInt 20), e_end = Some (PyInt 30), e_entity = Some ''DATE'',
               e_bbox = None\<rparr>,
              \<lparr>e_start = Some (PyInt 40), e_end = Some (PyInt 50), e_entity = None,
               e_bbox = Some [90, 70, 30, 40]\<rparr>]\<rparr>]\<rparr>)) ! 0) = Some 2"
proof -
  let ?lib = "\<lparr>open_image = (\<lambda>p. Some \<lparr>img_width = 100, img_height = 80, img_fills = []\<rparr>),
       rectangle_ok = (\<lambda>c1 c2. True), save_image = (\<lambda>img. Some ''redacted.jpg'')\<rparr>"
  let ?dd = "\<lparr>dd_status = Some ''success'', dd_processed_pages = Some
         [\<lparr>dp_page_num = Some 1, dp_temp_path = Some ''p1.png''\<rparr>]\<rparr>"
  let ?ocr = "\<lparr>or_status = Some ''success'', or_pages = Some (OcrPageList [])\<rparr>"
  let ?pii = "\<lparr>pr_status = Some ''success'', pr_results = Some
         [\<lparr>pp_status = Some ''success'', pp_message = None, pp_entities = Some
             [\<lparr>e_start = Some (PyInt 4), e_end = Some (PyInt 15), e_entity = Some ''SSN'',
               e_bbox = Some [10, 20, 30, 40]\<rparr>,
              \<lparr>e_start = Some (PyInt 20), e_end = Some (PyInt 30), e_entity = Some ''DATE'',
               e_bbox = None\<rparr>,
              \<lparr>e_start = Some (PyInt 40), e_end = Some (PyInt 50), e_entity = None,
               e_bbox = Some [90, 70, 30, 40]\<rparr>]\<rparr>]\<rparr>"
  let ?areas = "[\<lparr>ra_entity_type = ''SSN'', ra_bbox = [5, 15, 40, 50]\<rparr>,
                 \<lparr>ra_entity_type = ''UNKNOWN'', ra_bbox = [85, 65, 15, 15]\<rparr>]"
  let ?R = "result_pages (fst (process_document ?lib ?dd ?ocr ?pii))"
  have ev: "fst (process_document ?lib ?dd ?ocr ?pii) =
      RedactionDone 1 2
        [\<lparr>res_page_num = 1, res_status = ''success'', res_message = None,
          res_redacted_text = None, res_redacted_path = Some (Some ''redacted.jpg''),
          res_redactions = Some 2, res_redacted_areas = Some ?areas\<rparr>] []"
    by (simp add: process_document_def redact_page_def redact_page_try_def find_doc_page_def
        find_ocr_page_def redact_image_def draw_rectangle_def py_get_default_def
        initial_state_def Let_def)
  have k: "result_total_redactions (fst (process_document ?lib ?dd ?ocr ?pii)) = Some 2"
    by (simp only: ev result_total_redactions.simps)
  have i: "0 < length ?R" by (simp only: ev result_pages.simps) simp
  have a: "res_redacted_areas (?R ! 0) = Some ?areas"
    by (simp only: ev result_pages.simps) simp
  from total_redactions_match_drawn_areas[of ?lib ?dd ?ocr ?pii 2] k
  have th: "2 = sum_list (map areas_count ?R)"
    and pg: "\<forall>i<length ?R. \<forall>areas. res_redacted_areas (?R ! i) = Some areas \<longrightarrow>
          res_redactions (?R ! i) = Some (length areas)
          \<and> (\<exists>doc_page path w.
                find_doc_page ?dd (int i + 1) = Some doc_page
                \<and> redact_image ?lib (dp_temp_path doc_page)
                     (page_entities (pii_pages ?pii ! i)) ''black'' = ((path, areas), w)
                \<and> res_redacted_path (?R ! i) = Some path
                \<and> (case w of
                      None \<Rightarrow> path = dp_temp_path doc_page \<and> areas = []
                    | Some (tmp, img') \<Rightarrow>
                        path = Some tmp \<and> save_image ?lib img' = Some tmp
                        \<and> (\<exists>img. open_image ?lib (dp_temp_path doc_page) = Some img
                             \<and> areas = map (padded_area (img_width img) (img_height img))
                                         (filter has_bbox4 (page_entities (pii_pages ?pii ! i)))
                             \<and> img_fills img'
                                 = img_fills img @ map (area_fill ''black'') areas)))"
    by blast+
  from pg i a have "res_redactions (?R ! 0) = Some (length ?areas)" by blast
  then have "res_redactions (?R ! 0) = Some 2" by simp
  with th show ?thesis by simp
qed

section \<open>The character-to-word mapper: proofs\<close>

subsection \<open>The search and the assignment of a range\<close>

lemma find_at_Some:
  "find_at sub s pos = Some p \<Longrightarrow>
   pos \<le> p \<and> p - pos + length sub \<le> length s \<and> take (length sub) (drop (p - pos) s) = sub
   \<and> (\<forall>q. pos \<le> q \<and> q < p \<longrightarrow> take (length sub) (drop (q - pos) s) \<noteq> sub)"
proof (induction sub s pos rule: find_at.induct)
  case (1 sub pos)
  then show ?case by (simp split: if_splits)
next
  case (2 sub c cs pos)
  show ?case
  proof (cases "take (length sub) (c # cs) = sub")
    case True
    then have "p = pos" using 2 by simp
    moreover have "length sub \<le> length (c # cs)"
    proof -
      have "length (take (length sub) (c # cs)) = length sub" by (simp only: True)
      then show ?thesis by simp
    qed
    ultimately show ?thesis using True by simp
  next
    case False
    then have f: "find_at sub cs (Suc pos) = Some p" using 2 by simp
    from 2(1)[OF False f] have ih: "Suc pos \<le> p" "p - Suc pos + length sub \<le> length cs"
      "take (length sub) (drop (p - Suc pos) cs) = sub"
      "\<forall>q. Suc pos \<le> q \<and> q < p \<longrightarrow> take (length sub) (drop (q - Suc pos) cs) \<noteq> sub"
      by auto
    have d: "drop (q - pos) (c # cs) = drop (q - Suc pos) cs" if "Suc pos \<le> q" for q
    proof -
      from that have "q - pos = Suc (q - Suc pos)" by arith
      then show ?thesis by simp
    qed
    have "\<forall>q. pos \<le> q \<and> q < p \<longrightarrow> take (length sub) (drop (q - pos) (c # cs)) \<noteq> sub"
    proof (intro allI impI)
      fix q assume q: "pos \<le> q \<and> q < p"
      show "take (length sub) (drop (q - pos) (c # cs)) \<noteq> sub"
      proof (cases "q = pos")
        case True then show ?thesis using False by simp
      next
        case False
        then have "Suc pos \<le> q" using q by simp
        then show ?thesis using ih(4) q d by simp
      qed
    qed
    then show ?thesis using ih d[of p] by simp
  qed
qed

lemma find_at_None:
  "find_at sub s pos = None \<Longrightarrow> q \<le> length s \<Longrightarrow> take (length sub) (drop q s) \<noteq> sub"
proof (induction sub s pos arbitrary: q rule: find_at.induct)
  case (1 sub pos)
  then show ?case by (simp split: if_splits)
next
  case (2 sub c cs pos)
  from 2(2) have nf: "take (length sub) (c # cs) \<noteq> sub" and f: "find_at sub cs (Suc pos) = None"
    by (simp_all split: if_splits)
  show ?case
  proof (cases q)
    case 0 then show ?thesis using nf by simp
  next
    case (Suc q')
    then have "q' \<le> length cs" using 2(3) by simp
    from 2(1)[OF nf f this] show ?thesis using Suc by simp
  qed
qed

lemma occurs_at_take:
  "take (length sub) (drop p text) = sub \<Longrightarrow> p \<le> length text \<Longrightarrow> occurs_at text sub p"
proof -
  assume t: "take (length sub) (drop p text) = sub" and p: "p \<le> length text"
  have "length (take (length sub) (drop p text)) = length sub" by (simp only: t)
  then have "length sub \<le> length text - p" by simp
  then show ?thesis using t p by (simp add: occurs_at_def)
qed

lemma py_find_Some:
  assumes "py_find text sub c = Some p"
  shows "c \<le> p \<and> occurs_at text sub p \<and> (\<forall>q. c \<le> q \<and> q < p \<longrightarrow> \<not> occurs_at text sub q)"
proof -
  from assms have c: "c \<le> length text" and f: "find_at sub (drop c text) c = Some p"
    by (simp_all add: py_find_def split: if_splits)
  from find_at_Some[OF f] have fs: "c \<le> p" "p - c + length sub \<le> length (drop c text)"
    "take (length sub) (drop (p - c) (drop c text)) = sub"
    "\<forall>q. c \<le> q \<and> q < p \<longrightarrow> take (length sub) (drop (q - c) (drop c text)) \<noteq> sub"
    by auto
  have dd: "drop (q - c) (drop c text) = drop q text" if "c \<le> q" for q
    using that by simp
  have "occurs_at text sub p"
    using fs(1,2,3) dd[of p] c by (simp add: occurs_at_def)
  moreover have "\<forall>q. c \<le> q \<and> q < p \<longrightarrow> \<not> occurs_at text sub q"
    using fs(4) dd by (auto simp: occurs_at_def)
  ultimately show ?thesis using fs(1) by simp
qed

lemma py_find_None:
  assumes "py_find text sub c = None" and "c \<le> q"
  shows "\<not> occurs_at text sub q"
proof
  assume o: "occurs_at text sub q"
  then have q: "q \<le> length text" and t: "take (length sub) (drop q text) = sub"
    by (simp_all add: occurs_at_def)
  from q assms(2) have c: "c \<le> length text" by simp
  with assms(1) have f: "find_at sub (drop c text) c = None" by (simp add: py_find_def)
  have "q - c \<le> length (drop c text)" using q by simp
  from find_at_None[OF f this] have "take (length sub) (drop (q - c) (drop c text)) \<noteq> sub" .
  moreover have "drop (q - c) (drop c text) = drop q text" using assms(2) by simp
  ultimately show False using t by simp
qed

lemma fold_assign_range:
  "fold (\<lambda>j m. m(j \<mapsto> i)) [p..<p + n] m = (\<lambda>j. if p \<le> j \<and> j < p + n then Some i else m j)"
proof (induction n)
  case 0
  show ?case by (rule ext) auto
next
  case (Suc n)
  have "[p..<p + Suc n] = [p..<p + n] @ [p + n]" by simp
  then have "fold (\<lambda>j m. m(j \<mapsto> i)) [p..<p + Suc n] m
      = (fold (\<lambda>j m. m(j \<mapsto> i)) [p..<p + n] m)(p + n \<mapsto> i)"
    by (simp only: fold_append fold_simps comp_def)
  also have "\<dots> = (\<lambda>j. if p \<le> j \<and> j < p + Suc n then Some i else m j)"
    unfolding Suc.IH by (rule ext) auto
  finally show ?case .
qed

lemma char_map_loop_append:
  "char_map_loop text st i (xs @ ys)
     = char_map_loop text (char_map_loop text st i xs) (i + length xs) ys"
  by (induction xs arbitrary: st i) simp_all

lemma char_map_loop_snoc:
  "char_map_loop text st 0 (xs @ [w])
     = char_map_step text (char_map_loop text st 0 xs) (length xs) w"
  by (simp add: char_map_loop_append)

text \<open>The step, by cases.\<close>

lemma char_map_step_skip:
  "word_text w = [] \<or> py_find text (word_text w) (snd st) = None
   \<Longrightarrow> char_map_step text st i w = st"
  by (auto simp: char_map_step_def word_text_def Let_def)

lemma char_map_step_found:
  "word_text w \<noteq> [] \<Longrightarrow> py_find text (word_text w) (snd st) = Some p
   \<Longrightarrow> char_map_step text st i w
       = ((\<lambda>j. if p \<le> j \<and> j < p + length (word_text w) then Some i else fst st j),
          p + length (word_text w))"
  by (simp add: char_map_step_def word_text_def Let_def fold_assign_range)

subsection \<open>The invariant of the loop\<close>

lemma cursor_before_snoc:
  "cursor_before text (ws @ [w]) (length ws) = snd (char_map_loop text (Map.empty, 0) 0 ws)"
  by (simp add: cursor_before_def)

lemma cursor_before_prefix:
  "v \<le> length ws \<Longrightarrow> cursor_before text (ws @ us) v = cursor_before text ws v"
  by (simp add: cursor_before_def)

lemma found_at_prefix:
  "v < length ws \<Longrightarrow> found_at text (ws @ us) v = found_at text ws v"
  by (simp add: found_at_def cursor_before_prefix nth_append)

lemma found_at_last:
  "found_at text (ws @ [w]) (length ws)
     = (if word_text w = [] then None
        else py_find text (word_text w) (snd (char_map_loop text (Map.empty, 0) 0 ws)))"
  by (simp add: found_at_def cursor_before_snoc)

lemma char_map_step_last:
  "char_map_step text (char_map_loop text (Map.empty, 0) 0 ws) (length ws) w
     = (case found_at text (ws @ [w]) (length ws) of
          None \<Rightarrow> char_map_loop text (Map.empty, 0) 0 ws
        | Some p \<Rightarrow>
            ((\<lambda>j. if p \<le> j \<and> j < p + length (word_text w) then Some (length ws)
                   else fst (char_map_loop text (Map.empty, 0) 0 ws) j),
             p + length (word_text w)))"
proof (cases "found_at text (ws @ [w]) (length ws)")
  case None
  then have "word_text w = []
      \<or> py_find text (word_text w) (snd (char_map_loop text (Map.empty, 0) 0 ws)) = None"
    by (simp add: found_at_last split: if_splits)
  from char_map_step_skip[OF this] show ?thesis using None by simp
next
  case (Some p)
  then have "word_text w \<noteq> []"
    "py_find text (word_text w) (snd (char_map_loop text (Map.empty, 0) 0 ws)) = Some p"
    by (simp_all add: found_at_last split: if_splits)
  from char_map_step_found[OF this] show ?thesis using Some by simp
qed

lemma found_at_bounds:
  assumes "found_at text ws v = Some p"
  shows "cursor_before text ws v \<le> p \<and> occurs_at text (word_text (ws ! v)) p
    \<and> word_text (ws ! v) \<noteq> []
    \<and> (\<forall>q. cursor_before text ws v \<le> q \<and> q < p \<longrightarrow> \<not> occurs_at text (word_text (ws ! v)) q)"
proof -
  from assms have ne: "word_text (ws ! v) \<noteq> []"
    and f: "py_find text (word_text (ws ! v)) (cursor_before text ws v) = Some p"
    by (simp_all add: found_at_def split: if_splits)
  from py_find_Some[OF f] ne show ?thesis by simp
qed

text \<open>The invariant of the loop, after the words \<open>ws\<close>.\<close>

lemma char_map_loop_inv:
  "(\<forall>j v. fst (char_map_loop text (Map.empty, 0) 0 ws) j = Some v \<longrightarrow>
       v < length ws \<and> (\<exists>p. found_at text ws v = Some p \<and> p \<le> j
                            \<and> j < p + length (word_text (ws ! v))))
   \<and> (\<forall>v<length ws. \<forall>p. found_at text ws v = Some p \<longrightarrow>
         p + length (word_text (ws ! v)) \<le> snd (char_map_loop text (Map.empty, 0) 0 ws)
         \<and> (\<forall>j. p \<le> j \<and> j < p + length (word_text (ws ! v)) \<longrightarrow>
                fst (char_map_loop text (Map.empty, 0) 0 ws) j = Some v))
   \<and> (\<forall>v<length ws. cursor_before text ws v \<le> snd (char_map_loop text (Map.empty, 0) 0 ws))"
proof (induction ws rule: rev_induct)
  case Nil
  show ?case by simp
next
  case (snoc w ws)
  let ?st = "char_map_loop text (Map.empty, 0) 0 ws"
  let ?st' = "char_map_loop text (Map.empty, 0) 0 (ws @ [w])"
  let ?n = "length ws"
  from snoc have I2: "\<And>j v. fst ?st j = Some v \<Longrightarrow>
       v < ?n \<and> (\<exists>p. found_at text ws v = Some p \<and> p \<le> j
                            \<and> j < p + length (word_text (ws ! v)))"
    and I3: "\<And>v p. v < ?n \<Longrightarrow> found_at text ws v = Some p \<Longrightarrow>
         p + length (word_text (ws ! v)) \<le> snd ?st
         \<and> (\<forall>j. p \<le> j \<and> j < p + length (word_text (ws ! v)) \<longrightarrow> fst ?st j = Some v)"
    and I4: "\<And>v. v < ?n \<Longrightarrow> cursor_before text ws v \<le> snd ?st"
    by blast+
  have below: "j < snd ?st" if "fst ?st j = Some v" for j v
  proof -
    from I2[OF that] obtain p where "v < ?n" "found_at text ws v = Some p"
      "j < p + length (word_text (ws ! v))" by blast
    with I3[of v p] show ?thesis by simp
  qed
  have st': "?st' = (case found_at text (ws @ [w]) ?n of
          None \<Rightarrow> ?st
        | Some p \<Rightarrow>
            ((\<lambda>j. if p \<le> j \<and> j < p + length (word_text w) then Some ?n else fst ?st j),
             p + length (word_text w)))"
    by (simp only: char_map_loop_snoc char_map_step_last)
  have pre: "found_at text (ws @ [w]) v = found_at text ws v" "(ws @ [w]) ! v = ws ! v"
    "cursor_before text (ws @ [w]) v = cursor_before text ws v"
    if "v < ?n" for v
    using that by (simp_all add: found_at_prefix nth_append cursor_before_prefix)
  have cb: "cursor_before text (ws @ [w]) ?n = snd ?st" by (rule cursor_before_snoc)
  show ?case
  proof (cases "found_at text (ws @ [w]) ?n")
    case None
    then have eq: "?st' = ?st" using st' by simp
    have a: "\<forall>j v. fst ?st' j = Some v \<longrightarrow>
       v < length (ws @ [w]) \<and> (\<exists>p. found_at text (ws @ [w]) v = Some p \<and> p \<le> j
                            \<and> j < p + length (word_text ((ws @ [w]) ! v)))"
    proof (intro allI impI)
      fix j v assume "fst ?st' j = Some v"
      then have "fst ?st j = Some v" by (simp only: eq)
      from I2[OF this] show "v < length (ws @ [w]) \<and> (\<exists>p. found_at text (ws @ [w]) v = Some p
           \<and> p \<le> j \<and> j < p + length (word_text ((ws @ [w]) ! v)))"
        using pre by auto
    qed
    have b: "\<forall>v<length (ws @ [w]). \<forall>p. found_at text (ws @ [w]) v = Some p \<longrightarrow>
         p + length (word_text ((ws @ [w]) ! v)) \<le> snd ?st'
         \<and> (\<forall>j. p \<le> j \<and> j < p + length (word_text ((ws @ [w]) ! v)) \<longrightarrow>
                fst ?st' j = Some v)"
    proof (intro allI impI)
      fix v p assume v: "v < length (ws @ [w])" and f: "found_at text (ws @ [w]) v = Some p"
      from v f None have v': "v < ?n" by (cases "v = ?n") auto
      from I3[OF v'] f pre[OF v'] show "p + length (word_text ((ws @ [w]) ! v)) \<le> snd ?st'
         \<and> (\<forall>j. p \<le> j \<and> j < p + length (word_text ((ws @ [w]) ! v)) \<longrightarrow>
                fst ?st' j = Some v)"
        by (simp add: eq)
    qed
    have c: "\<forall>v<length (ws @ [w]). cursor_before text (ws @ [w]) v \<le> snd ?st'"
    proof (intro allI impI)
      fix v assume v: "v < length (ws @ [w])"
      show "cursor_before text (ws @ [w]) v \<le> snd ?st'"
      proof (cases "v = ?n")
        case True then show ?thesis using cb eq by simp
      next
        case False
        with v have v': "v < ?n" by simp
        from I4[OF v'] pre[OF v'] show ?thesis by (simp add: eq)
      qed
    qed
    from a b c show ?thesis by blast
  next
    case (Some q)
    let ?len = "length (word_text w)"
    from Some have eq2: "snd ?st' = q + ?len" using st' by simp
    from Some have eq1: "fst ?st' j = (if q \<le> j \<and> j < q + ?len then Some ?n else fst ?st j)"
      for j using st' by simp
    from found_at_bounds[OF Some] cb have q: "snd ?st \<le> q" by simp
    have a: "\<forall>j v. fst ?st' j = Some v \<longrightarrow>
       v < length (ws @ [w]) \<and> (\<exists>p. found_at text (ws @ [w]) v = Some p \<and> p \<le> j
                            \<and> j < p + length (word_text ((ws @ [w]) ! v)))"
    proof (intro allI impI)
      fix j v assume jv: "fst ?st' j = Some v"
      show "v < length (ws @ [w]) \<and> (\<exists>p. found_at text (ws @ [w]) v = Some p
           \<and> p \<le> j \<and> j < p + length (word_text ((ws @ [w]) ! v)))"
      proof (cases "q \<le> j \<and> j < q + ?len")
        case True
        then have "v = ?n" using jv eq1[of j] by simp
        then show ?thesis using Some True by simp
      next
        case False
        then have "fst ?st j = Some v" using jv eq1[of j] by auto
        from I2[OF this] show ?thesis using pre by auto
      qed
    qed
    have b: "\<forall>v<length (ws @ [w]). \<forall>p. found_at text (ws @ [w]) v = Some p \<longrightarrow>
         p + length (word_text ((ws @ [w]) ! v)) \<le> snd ?st'
         \<and> (\<forall>j. p \<le> j \<and> j < p + length (word_text ((ws @ [w]) ! v)) \<longrightarrow>
                fst ?st' j = Some v)"
    proof (intro allI impI)
      fix v p assume v: "v < length (ws @ [w])" and f: "found_at text (ws @ [w]) v = Some p"
      show "p + length (word_text ((ws @ [w]) ! v)) \<le> snd ?st'
         \<and> (\<forall>j. p \<le> j \<and> j < p + length (word_text ((ws @ [w]) ! v)) \<longrightarrow>
                fst ?st' j = Some v)"
      proof (cases "v = ?n")
        case True
        then have "p = q" using f Some by simp
        then show ?thesis using True eq1 eq2 by simp
      next
        case False
        with v have v': "v < ?n" by simp
        from I3[OF v'] f pre[OF v']
        have i3: "p + length (word_text (ws ! v)) \<le> snd ?st"
          "\<forall>j. p \<le> j \<and> j < p + length (word_text (ws ! v)) \<longrightarrow> fst ?st j = Some v"
          by simp_all
        have "fst ?st' j = Some v" if "p \<le> j \<and> j < p + length (word_text (ws ! v))" for j
        proof -
          from that i3(1) q have "\<not> (q \<le> j \<and> j < q + ?len)" by simp
          then show ?thesis using i3(2) that eq1[of j] by auto
        qed
        then show ?thesis using i3(1) q pre[OF v'] eq2 by simp
      qed
    qed
    have c: "\<forall>v<length (ws @ [w]). cursor_before text (ws @ [w]) v \<le> snd ?st'"
    proof (intro allI impI)
      fix v assume v: "v < length (ws @ [w])"
      show "cursor_before text (ws @ [w]) v \<le> snd ?st'"
      proof (cases "v = ?n")
        case True then show ?thesis using cb eq2 q by simp
      next
        case False
        with v have v': "v < ?n" by simp
        from I4[OF v'] pre[OF v'] q show ?thesis by (simp add: eq2)
      qed
    qed
    from a b c show ?thesis by blast
  qed
qed

lemma fold_assign_upt:
  "fold (\<lambda>j m. m(j \<mapsto> i)) [p..<q] m = (\<lambda>j. if p \<le> j \<and> j < q then Some i else m j)"
proof (cases "p \<le> q")
  case True
  then have "q = p + (q - p)" by simp
  then show ?thesis using fold_assign_range[of i p "q - p" m] by simp
next
  case False
  then show ?thesis by (intro ext) auto
qed

lemma found_at_take:
  "i < length words \<Longrightarrow> found_at text (take i words @ [words ! i]) i = found_at text words i"
  by (simp add: found_at_def cursor_before_def nth_append)

lemma cursor_before_Suc:
  assumes "i < length words"
  shows "cursor_before text words (Suc i)
     = (case found_at text words i of
          None \<Rightarrow> cursor_before text words i
        | Some p \<Rightarrow> p + length (word_text (words ! i)))"
proof -
  let ?ws = "take i words"
  have len: "length ?ws = i" using assms by simp
  have "cursor_before text words (Suc i)
      = snd (char_map_loop text (Map.empty, 0) 0 (?ws @ [words ! i]))"
    using assms by (simp add: cursor_before_def take_Suc_conv_app_nth)
  also have "\<dots> = snd (char_map_step text (char_map_loop text (Map.empty, 0) 0 ?ws)
                          (length ?ws) (words ! i))"
    by (simp only: char_map_loop_snoc)
  also have "\<dots> = (case found_at text (?ws @ [words ! i]) (length ?ws) of
          None \<Rightarrow> snd (char_map_loop text (Map.empty, 0) 0 ?ws)
        | Some p \<Rightarrow> p + length (word_text (words ! i)))"
    by (simp only: char_map_step_last) (simp split: option.splits)
  finally have "cursor_before text words (Suc i)
      = (case found_at text (?ws @ [words ! i]) (length ?ws) of
          None \<Rightarrow> snd (char_map_loop text (Map.empty, 0) 0 ?ws)
        | Some p \<Rightarrow> p + length (word_text (words ! i)))" .
  then show ?thesis
    unfolding len found_at_take[OF assms] by (simp add: cursor_before_def split: option.splits)
qed

lemma found_at_None:
  assumes "found_at text words i = None"
  shows "word_text (words ! i) = []
     \<or> (\<forall>q\<ge>cursor_before text words i. \<not> occurs_at text (word_text (words ! i)) q)"
proof (cases "word_text (words ! i) = []")
  case True then show ?thesis by simp
next
  case False
  with assms have "py_find text (word_text (words ! i)) (cursor_before text words i) = None"
    by (simp add: found_at_def)
  from py_find_None[OF this] show ?thesis by blast
qed

lemma char_map_values:
  "create_char_to_word_map text words j = Some v \<Longrightarrow>
     v < length words \<and> (\<exists>p. found_at text words v = Some p \<and> p \<le> j
                          \<and> j < p + length (word_text (words ! v)))"
  using char_map_loop_inv[of "text" words] unfolding create_char_to_word_map_def by blast

lemma char_map_covered:
  "v < length words \<Longrightarrow> found_at text words v = Some p \<Longrightarrow>
   p \<le> j \<Longrightarrow> j < p + length (word_text (words ! v)) \<Longrightarrow>
   create_char_to_word_map text words j = Some v"
  using char_map_loop_inv[of "text" words] unfolding create_char_to_word_map_def by blast

lemma hello_world_map:
  "create_char_to_word_map ''Hello World''
      [\<lparr>w_word = Some ''Hello'', w_bbox = None\<rparr>, \<lparr>w_word = Some ''World'', w_bbox = None\<rparr>] j
     = (if j < 5 then Some 0 else if 6 \<le> j \<and> j < 11 then Some 1 else None)"
  by (simp add: create_char_to_word_map_def char_map_step_def py_find_def py_get_default_def
      fold_assign_upt Let_def)

subsection \<open>The cursor and the mapping\<close>

text \<open>
  C4. The mapper keeps a cursor that starts at 0. For the word of index \<open>i\<close>, found by the
  forward search at the position \<open>p\<close>: \<open>p\<close> is at or after the cursor, the word's text
  occurs at \<open>p\<close> and at no position between the cursor and \<open>p\<close>, every index in
  \<open>[p, p + len(word))\<close> is mapped to \<open>i\<close> in the returned mapping, and the cursor moves to
  \<open>p + len(word)\<close>. For a word that is not found from the cursor onward (or whose text is
  empty, which the code does not search): no index is mapped to \<open>i\<close> and the cursor stays.
  An index is in the mapping only if a word that was found covers it, so the offsets that
  no word covers are absent. For the text \<^verbatim>\<open>Hello World\<close> and the words \<^verbatim>\<open>Hello\<close>, \<^verbatim>\<open>World\<close>:
  the offsets 0 to 4 map to 0, the offsets 6 to 10 map to 1, and no other offset (5 among
  them) is mapped.
\<close>

theorem char_to_word_map_cursor:
  "(\<forall>j. create_char_to_word_map ''Hello World''
          [\<lparr>w_word = Some ''Hello'', w_bbox = None\<rparr>, \<lparr>w_word = Some ''World'', w_bbox = None\<rparr>] j
        = (if j < 5 then Some 0 else if 6 \<le> j \<and> j < 11 then Some 1 else None))
   \<and> cursor_before text words 0 = 0
   \<and> (\<forall>i<length words.
        (case found_at text words i of
           Some p \<Rightarrow>
             cursor_before text words i \<le> p \<and> occurs_at text (word_text (words ! i)) p
             \<and> (\<forall>q. cursor_before text words i \<le> q \<and> q < p \<longrightarrow>
                    \<not> occurs_at text (word_text (words ! i)) q)
             \<and> (\<forall>j. p \<le> j \<and> j < p + length (word_text (words ! i)) \<longrightarrow>
                    create_char_to_word_map text words j = Some i)
             \<and> cursor_before text words (Suc i) = p + length (word_text (words ! i))
         | None \<Rightarrow>
             (word_text (words ! i) = []
              \<or> (\<forall>q\<ge>cursor_before text words i. \<not> occurs_at text (word_text (words ! i)) q))
             \<and> (\<forall>j. create_char_to_word_map text words j \<noteq> Some i)
             \<and> cursor_before text words (Suc i) = cursor_before text words i))
   \<and> (\<forall>j i. create_char_to_word_map text words j = Some i \<longrightarrow>
         i < length words
         \<and> (\<exists>p. found_at text words i = Some p \<and> p \<le> j
                \<and> j < p + length (word_text (words ! i))))"
proof (intro conjI allI impI)
  fix j
  show "create_char_to_word_map ''Hello World''
          [\<lparr>w_word = Some ''Hello'', w_bbox = None\<rparr>, \<lparr>w_word = Some ''World'', w_bbox = None\<rparr>] j
        = (if j < 5 then Some 0 else if 6 \<le> j \<and> j < 11 then Some 1 else None)"
    by (rule hello_world_map)
next
  show "cursor_before text words 0 = 0" by (simp add: cursor_before_def)
next
  fix i assume i: "i < length words"
  show "case found_at text words i of
           Some p \<Rightarrow>
             cursor_before text words i \<le> p \<and> occurs_at text (word_text (words ! i)) p
             \<and> (\<forall>q. cursor_before text words i \<le> q \<and> q < p \<longrightarrow>
                    \<not> occurs_at text (word_text (words ! i)) q)
             \<and> (\<forall>j. p \<le> j \<and> j < p + length (word_text (words ! i)) \<longrightarrow>
                    create_char_to_word_map text words j = Some i)
             \<and> cursor_before text words (Suc i) = p + length (word_text (words ! i))
         | None \<Rightarrow>
             (word_text (words ! i) = []
              \<or> (\<forall>q\<ge>cursor_before text words i. \<not> occurs_at text (word_text (words ! i)) q))
             \<and> (\<forall>j. create_char_to_word_map text words j \<noteq> Some i)
             \<and> cursor_before text words (Suc i) = cursor_before text words i"
  proof (cases "found_at text words i")
    case None
    have "create_char_to_word_map text words j \<noteq> Some i" for j
      using char_map_values[of "text" words j i] None by auto
    then show ?thesis
      using None found_at_None[OF None] cursor_before_Suc[OF i, of "text"] by simp
  next
    case (Some p)
    from found_at_bounds[OF Some] char_map_covered[OF i Some] cursor_before_Suc[OF i, of "text"]
    show ?thesis using Some by simp
  qed
next
  fix j i assume "create_char_to_word_map text words j = Some i"
  from char_map_values[OF this]
  show "i < length words" 
    and "\<exists>p. found_at text words i = Some p \<and> p \<le> j \<and> j < p + length (word_text (words ! i))"
    by simp_all
qed

theorem char_to_word_map_cursor_witness:
  "create_char_to_word_map ''Hello World''
      [\<lparr>w_word = Some ''Hello'', w_bbox = None\<rparr>, \<lparr>w_word = Some ''World'', w_bbox = None\<rparr>] 8
     = Some 1
   \<and> cursor_before ''Hello World''
      [\<lparr>w_word = Some ''Hello'', w_bbox = None\<rparr>, \<lparr>w_word = Some ''World'', w_bbox = None\<rparr>] 2
     = 11"
proof -
  let ?ws = "[\<lparr>w_word = Some ''Hello'', w_bbox = None\<rparr>, \<lparr>w_word = Some ''World'', w_bbox = None\<rparr>]"
  have f: "found_at ''Hello World'' ?ws 1 = Some 6"
    by (simp add: found_at_def cursor_before_def word_text_def char_map_step_def py_find_def
        py_get_default_def Let_def)
  have i: "1 < length ?ws" by simp
  from char_to_word_map_cursor[of "''Hello World''" ?ws]
  have "\<forall>i<length ?ws.
        (case found_at ''Hello World'' ?ws i of
           Some p \<Rightarrow>
             cursor_before ''Hello World'' ?ws i \<le> p
             \<and> occurs_at ''Hello World'' (word_text (?ws ! i)) p
             \<and> (\<forall>q. cursor_before ''Hello World'' ?ws i \<le> q \<and> q < p \<longrightarrow>
                    \<not> occurs_at ''Hello World'' (word_text (?ws ! i)) q)
             \<and> (\<forall>j. p \<le> j \<and> j < p + length (word_text (?ws ! i)) \<longrightarrow>
                    create_char_to_word_map ''Hello World'' ?ws j = Some i)
             \<and> cursor_before ''Hello World'' ?ws (Suc i) = p + length (word_text (?ws ! i))
         | None \<Rightarrow>
             (word_text (?ws ! i) = []
              \<or> (\<forall>q\<ge>cursor_before ''Hello World'' ?ws i.
                    \<not> occurs_at ''Hello World'' (word_text (?ws ! i)) q))
             \<and> (\<forall>j. create_char_to_word_map ''Hello World'' ?ws j \<noteq> Some i)
             \<and> cursor_before ''Hello World'' ?ws (Suc i) = cursor_before ''Hello World'' ?ws i)"
    by blast
  from this[rule_format, OF i] f
  have c: "(\<forall>j. 6 \<le> j \<and> j < 6 + length (word_text (?ws ! 1)) \<longrightarrow>
                    create_char_to_word_map ''Hello World'' ?ws j = Some 1)"
    and d: "cursor_before ''Hello World'' ?ws (Suc 1) = 6 + length (word_text (?ws ! 1))"
    by simp_all
  have l: "length (word_text (?ws ! 1)) = 5" by (simp add: word_text_def py_get_default_def)
  from c[rule_format, of 8] d l show ?thesis by (simp add: numeral_2_eq_2)
qed

text \<open>
  C9. Every value \<open>v\<close> of the returned mapping is an index of the word list, and the
  positions mapped to \<open>v\<close> are exactly one interval \<open>[p, p + len(word_v))\<close> that lies in the
  text and where the text reads the word's text.
\<close>

theorem char_to_word_map_intervals:
  "create_char_to_word_map text words j = Some v \<longrightarrow>
     v < length words
     \<and> (\<exists>p. {k. create_char_to_word_map text words k = Some v}
              = {p..<p + length (word_text (words ! v))}
            \<and> p + length (word_text (words ! v)) \<le> length text
            \<and> take (length (word_text (words ! v))) (drop p text) = word_text (words ! v))"
proof
  assume m: "create_char_to_word_map text words j = Some v"
  from char_map_values[OF m] obtain p where v: "v < length words"
    and f: "found_at text words v = Some p" by blast
  have "{k. create_char_to_word_map text words k = Some v}
      = {p..<p + length (word_text (words ! v))}"
  proof (intro set_eqI iffI)
    fix k assume "k \<in> {k. create_char_to_word_map text words k = Some v}"
    then have "create_char_to_word_map text words k = Some v" by simp
    from char_map_values[OF this] f show "k \<in> {p..<p + length (word_text (words ! v))}"
      by auto
  next
    fix k assume "k \<in> {p..<p + length (word_text (words ! v))}"
    then have "p \<le> k" "k < p + length (word_text (words ! v))" by simp_all
    from char_map_covered[OF v f this]
    show "k \<in> {k. create_char_to_word_map text words k = Some v}" by simp
  qed
  moreover from found_at_bounds[OF f] have "occurs_at text (word_text (words ! v)) p" by simp
  ultimately show "v < length words
     \<and> (\<exists>p. {k. create_char_to_word_map text words k = Some v}
              = {p..<p + length (word_text (words ! v))}
            \<and> p + length (word_text (words ! v)) \<le> length text
            \<and> take (length (word_text (words ! v))) (drop p text) = word_text (words ! v))"
    using v by (auto simp: occurs_at_def)
qed

theorem char_to_word_map_intervals_witness:
  "\<exists>p. {k. create_char_to_word_map ''Hello World''
            [\<lparr>w_word = Some ''Hello'', w_bbox = None\<rparr>, \<lparr>w_word = Some ''World'', w_bbox = None\<rparr>] k
          = Some 1} = {p..<p + 5}
      \<and> p + 5 \<le> 11 \<and> take 5 (drop p ''Hello World'') = ''World''"
proof -
  let ?ws = "[\<lparr>w_word = Some ''Hello'', w_bbox = None\<rparr>, \<lparr>w_word = Some ''World'', w_bbox = None\<rparr>]"
  have m: "create_char_to_word_map ''Hello World'' ?ws 7 = Some 1"
    by (simp add: create_char_to_word_map_def char_map_step_def py_find_def py_get_default_def
        fold_assign_upt Let_def)
  have n: "word_text (?ws ! 1) = ''World''" "length ''World'' = 5" "length ''Hello World'' = 11"
    by (simp_all add: word_text_def py_get_default_def)
  from char_to_word_map_intervals[of "''Hello World''" ?ws 7 1] m
  have "\<exists>p. {k. create_char_to_word_map ''Hello World'' ?ws k = Some 1}
              = {p..<p + length (word_text (?ws ! 1))}
            \<and> p + length (word_text (?ws ! 1)) \<le> length ''Hello World''
            \<and> take (length (word_text (?ws ! 1))) (drop p ''Hello World'') = word_text (?ws ! 1)"
    by blast
  then show ?thesis unfolding n .
qed

section \<open>Mapping an entity to words: proofs\<close>

lemma fold_collect:
  "fold (\<lambda>char_pos word_indices.
             case (if 0 \<le> char_pos then m (nat char_pos) else None) of
               None \<Rightarrow> word_indices
             | Some v \<Rightarrow> insert v word_indices) cs S
     = S \<union> {v. \<exists>c\<in>set cs. 0 \<le> c \<and> m (nat c) = Some v}"
proof (induction cs arbitrary: S)
  case Nil
  show ?case by simp
next
  case (Cons c cs)
  show ?case unfolding fold_simps Cons.IH by (auto split: option.splits if_splits)
qed

lemma collect_word_indices_eq:
  "collect_word_indices m s t = referenced_words m s t"
proof -
  have "set [s..t - 1] = {s..<t}" by auto
  then show ?thesis
    unfolding collect_word_indices_def referenced_words_def fold_collect by simp
qed

lemma finite_referenced_words: "finite (referenced_words m s t)"
proof -
  have "referenced_words m s t \<subseteq> (\<lambda>c. the (m (nat c))) ` {s..<t}"
  proof
    fix v assume "v \<in> referenced_words m s t"
    then obtain c where c: "c \<in> {s..<t}" "m (nat c) = Some v"
      by (auto simp: referenced_words_def)
    then have "v = the (m (nat c))" by simp
    with c(1) show "v \<in> (\<lambda>c. the (m (nat c))) ` {s..<t}" by blast
  qed
  then show ?thesis by (rule finite_subset) simp
qed

lemma pixel_boxD:
  "pixel_box b \<Longrightarrow> \<exists>x y w h. b = [x, y, w, h] \<and> 0 \<le> x + w \<and> 0 \<le> y + h"
  by (auto simp: pixel_box_def split: list.splits)

lemma add_word_box_valid:
  assumes "v < length words" and "word_box (words ! v) = [x, y, w, h]"
  shows "add_word_box words v acc =
     acc\<lparr>acc_min := Some (case acc_min acc of
                           None \<Rightarrow> (x, y)
                         | Some (min_x, min_y) \<Rightarrow> (min min_x x, min min_y y)),
         acc_max_x := max (acc_max_x acc) (x + w),
         acc_max_y := max (acc_max_y acc) (y + h),
         acc_words := acc_words acc @ [word_text (words ! v)]\<rparr>"
proof -
  from assms(2) have "w_bbox (words ! v) = Some [x, y, w, h]"
    by (cases "w_bbox (words ! v)") (simp_all add: word_box_def py_get_default_def)
  then show ?thesis using assms(1)
    by (simp add: add_word_box_def Let_def word_text_def)
qed

lemma covers_four: "covers c b \<Longrightarrow> \<exists>cx cy cw ch. c = [cx, cy, cw, ch]"
  by (induction c b rule: covers.induct) simp_all

lemma fold_add_word_box:
  assumes "\<forall>v\<in>set vs. v < length words \<and> pixel_box (word_box (words ! v))"
  shows "acc_words (fold (add_word_box words) vs
             \<lparr>acc_min = None, acc_max_x = 0, acc_max_y = 0, acc_words = []\<rparr>)
           = map (\<lambda>v. word_text (words ! v)) vs
     \<and> (vs \<noteq> [] \<longrightarrow>
          acc_min (fold (add_word_box words) vs
             \<lparr>acc_min = None, acc_max_x = 0, acc_max_y = 0, acc_words = []\<rparr>) \<noteq> None
          \<and> (\<forall>v\<in>set vs. covers (box_of (fold (add_word_box words) vs
                 \<lparr>acc_min = None, acc_max_x = 0, acc_max_y = 0, acc_words = []\<rparr>))
               (word_box (words ! v)))
          \<and> (\<forall>c. (\<forall>v\<in>set vs. covers c (word_box (words ! v))) \<longrightarrow>
                 covers c (box_of (fold (add_word_box words) vs
                   \<lparr>acc_min = None, acc_max_x = 0, acc_max_y = 0, acc_words = []\<rparr>))))"
  using assms
proof (induction vs rule: rev_induct)
  case Nil
  show ?case by simp
next
  case (snoc u vs)
  let ?init = "\<lparr>acc_min = None, acc_max_x = 0, acc_max_y = 0, acc_words = []\<rparr>"
  let ?acc = "fold (add_word_box words) vs ?init"
  let ?acc' = "fold (add_word_box words) (vs @ [u]) ?init"
  from snoc.prems have u: "u < length words" and pu: "pixel_box (word_box (words ! u))"
    and rest: "\<forall>v\<in>set vs. v < length words \<and> pixel_box (word_box (words ! v))"
    by simp_all
  from pixel_boxD[OF pu] obtain x y w h where
    b: "word_box (words ! u) = [x, y, w, h]" and nn: "0 \<le> x + w" "0 \<le> y + h" by blast
  have acc': "?acc' = ?acc\<lparr>acc_min := Some (case acc_min ?acc of
                           None \<Rightarrow> (x, y)
                         | Some (min_x, min_y) \<Rightarrow> (min min_x x, min min_y y)),
         acc_max_x := max (acc_max_x ?acc) (x + w),
         acc_max_y := max (acc_max_y ?acc) (y + h),
         acc_words := acc_words ?acc @ [word_text (words ! u)]\<rparr>"
    using add_word_box_valid[OF u b, of ?acc] by simp
  from snoc.IH[OF rest] have ihw: "acc_words ?acc = map (\<lambda>v. word_text (words ! v)) vs"
    and ih: "vs \<noteq> [] \<longrightarrow> acc_min ?acc \<noteq> None
          \<and> (\<forall>v\<in>set vs. covers (box_of ?acc) (word_box (words ! v)))
          \<and> (\<forall>c. (\<forall>v\<in>set vs. covers c (word_box (words ! v))) \<longrightarrow> covers c (box_of ?acc))"
    by blast+
  have w: "acc_words ?acc' = map (\<lambda>v. word_text (words ! v)) (vs @ [u])"
    unfolding acc' using ihw by simp
  have m: "acc_min ?acc' \<noteq> None" unfolding acc' by simp
  show ?case
  proof (cases "vs = []")
    case True
    then have "?acc = ?init" by simp
    then have bo: "box_of ?acc' = [x, y, w, h]"
      unfolding acc' using nn by (simp add: box_of_def)
    have "covers [x, y, w, h] [x, y, w, h]" by simp
    then show ?thesis using w m bo True b by simp
  next
    case False
    with ih obtain mx my where mn: "acc_min ?acc = Some (mx, my)"
      and cov: "\<forall>v\<in>set vs. covers (box_of ?acc) (word_box (words ! v))"
      and mini: "\<forall>c. (\<forall>v\<in>set vs. covers c (word_box (words ! v))) \<longrightarrow> covers c (box_of ?acc)"
      by (cases "acc_min ?acc") auto
    let ?X = "acc_max_x ?acc" and ?Y = "acc_max_y ?acc"
    have bo: "box_of ?acc = [mx, my, ?X - mx, ?Y - my]" using mn by (simp add: box_of_def)
    have bo': "box_of ?acc' = [min mx x, min my y, max ?X (x + w) - min mx x,
                               max ?Y (y + h) - min my y]"
      unfolding acc' using mn by (simp add: box_of_def)
    have c1: "covers (box_of ?acc') (word_box (words ! v))" if "v \<in> set (vs @ [u])" for v
    proof (cases "v = u")
      case True
      then show ?thesis unfolding bo' by (simp add: b)
    next
      case False
      with that have v: "v \<in> set vs" by simp
      from rest v pixel_boxD obtain a b' c d where
        bv: "word_box (words ! v) = [a, b', c, d]" by blast
      from cov v have "covers (box_of ?acc) (word_box (words ! v))" by blast
      then have "covers [mx, my, ?X - mx, ?Y - my] [a, b', c, d]"
        unfolding bo bv .
      then show ?thesis unfolding bo' bv by auto
    qed
    have c2: "covers c (box_of ?acc')" if a: "\<forall>v\<in>set (vs @ [u]). covers c (word_box (words ! v))" for c
    proof -
      from a have "\<forall>v\<in>set vs. covers c (word_box (words ! v))" by simp
      with mini have "covers c (box_of ?acc)" by blast
      then have o: "covers c [mx, my, ?X - mx, ?Y - my]" unfolding bo .
      from a have "covers c (word_box (words ! u))" by simp
      then have n: "covers c [x, y, w, h]" unfolding b .
      from covers_four[OF n] obtain cx cy cw ch where c: "c = [cx, cy, cw, ch]" by blast
      from o n show ?thesis unfolding bo' c by auto
    qed
    from w m c1 c2 show ?thesis by blast
  qed
qed

lemma covers_refl: "b = [x, y, w, h] \<Longrightarrow> covers b b"
  by simp

lemma covers_antisym: "covers a b \<Longrightarrow> covers b a \<Longrightarrow> a = b"
  by (induction a b rule: covers.induct) auto

lemma map_entity_to_words_unmapped:
  assumes "e_start entity = Some (PyInt s)" "e_end entity = Some (PyInt t)"
    and "referenced_words m s t = {}"
  shows "map_entity_to_words entity m words = Inr entity"
  using assms by (simp add: map_entity_to_words_def collect_word_indices_eq)

lemma map_entity_to_words_mapped:
  assumes st: "e_start entity = Some (PyInt s)" "e_end entity = Some (PyInt t)"
    and ne: "referenced_words m s t \<noteq> {}"
    and ok: "\<forall>v\<in>referenced_words m s t. v < length words \<and> pixel_box (word_box (words ! v))"
  shows "\<exists>box. map_entity_to_words entity m words
           = Inr (entity\<lparr>e_bbox := Some box,
                         e_words := Some (map (\<lambda>v. word_text (words ! v))
                                      (sorted_list_of_set (referenced_words m s t)))\<rparr>)
         \<and> (\<forall>v\<in>referenced_words m s t. covers box (word_box (words ! v)))
         \<and> (\<forall>c. (\<forall>v\<in>referenced_words m s t. covers c (word_box (words ! v)))
                \<longrightarrow> covers c box)"
proof -
  let ?R = "referenced_words m s t"
  let ?vs = "sorted_list_of_set ?R"
  let ?acc = "fold (add_word_box words) ?vs
                \<lparr>acc_min = None, acc_max_x = 0, acc_max_y = 0, acc_words = []\<rparr>"
  have fin: "finite ?R" by (rule finite_referenced_words)
  then have set: "set ?vs = ?R" by simp
  have vne: "?vs \<noteq> []" using fin ne by simp
  from ok set have "\<forall>v\<in>set ?vs. v < length words \<and> pixel_box (word_box (words ! v))"
    by simp
  from fold_add_word_box[OF this] vne
  have w: "acc_words ?acc = map (\<lambda>v. word_text (words ! v)) ?vs"
    and mn: "acc_min ?acc \<noteq> None"
    and cov: "\<forall>v\<in>set ?vs. covers (box_of ?acc) (word_box (words ! v))"
    and mini: "\<forall>c. (\<forall>v\<in>set ?vs. covers c (word_box (words ! v))) \<longrightarrow> covers c (box_of ?acc)"
    by blast+
  from mn obtain mx my where m: "acc_min ?acc = Some (mx, my)" by (cases "acc_min ?acc") auto
  then have bo: "box_of ?acc = [mx, my, acc_max_x ?acc - mx, acc_max_y ?acc - my]"
    by (simp add: box_of_def)
  have "map_entity_to_words entity m words
      = Inr (entity\<lparr>e_bbox := Some (box_of ?acc), e_words := Some (acc_words ?acc)\<rparr>)"
    using st ne m bo by (simp add: map_entity_to_words_def collect_word_indices_eq Let_def)
  with w cov mini show ?thesis unfolding set by auto
qed

text \<open>
  C5. For an entity with integer offsets, the first loop collects exactly the word
  indices that the mapping gives for the positions of \<open>[start, end)\<close>. If there is none,
  the entity is returned as it is. Otherwise, when every referenced index is an index of
  the word list and every referenced word has a box in pixel coordinates, the entity
  gets a box that covers the box of every referenced word and is covered by every box
  that does (the minimal covering box, their union), and its \<^verbatim>\<open>words\<close> are the texts of the
  referenced words in ascending order of index. An entity that refers to word 0 alone
  gets the box of word 0. A referenced word without a box of four elements contributes
  neither to the box nor to \<^verbatim>\<open>words\<close>, and \<^verbatim>\<open>max_x\<close> and \<^verbatim>\<open>max_y\<close> start at 0, so a box whose
  right or bottom edge is negative is not what the claim is about: OCR boxes are pixel
  coordinates.
\<close>

theorem map_entity_to_words_union_box:
  "e_start entity = Some (PyInt s) \<and> e_end entity = Some (PyInt t) \<longrightarrow>
     collect_word_indices m s t = referenced_words m s t
     \<and> (referenced_words m s t = {} \<longrightarrow> map_entity_to_words entity m words = Inr entity)
     \<and> (referenced_words m s t \<noteq> {}
          \<and> (\<forall>v\<in>referenced_words m s t.
                 v < length words \<and> pixel_box (word_box (words ! v))) \<longrightarrow>
          (\<exists>box. map_entity_to_words entity m words
                    = Inr (entity\<lparr>e_bbox := Some box,
                             e_words := Some (map (\<lambda>v. word_text (words ! v))
                                          (sorted_list_of_set (referenced_words m s t)))\<rparr>)
                 \<and> (\<forall>v\<in>referenced_words m s t. covers box (word_box (words ! v)))
                 \<and> (\<forall>c. (\<forall>v\<in>referenced_words m s t. covers c (word_box (words ! v)))
                        \<longrightarrow> covers c box)))
     \<and> (referenced_words m s t = {0} \<and> 0 < length words
          \<and> pixel_box (word_box (words ! 0)) \<longrightarrow>
          map_entity_to_words entity m words
            = Inr (entity\<lparr>e_bbox := Some (word_box (words ! 0)),
                          e_words := Some [word_text (words ! 0)]\<rparr>))"
proof (intro impI conjI)
  show "collect_word_indices m s t = referenced_words m s t"
    by (rule collect_word_indices_eq)
next
  assume "e_start entity = Some (PyInt s) \<and> e_end entity = Some (PyInt t)"
    and "referenced_words m s t = {}"
  then show "map_entity_to_words entity m words = Inr entity"
    using map_entity_to_words_unmapped by blast
next
  assume "e_start entity = Some (PyInt s) \<and> e_end entity = Some (PyInt t)"
    and "referenced_words m s t \<noteq> {}
          \<and> (\<forall>v\<in>referenced_words m s t.
                 v < length words \<and> pixel_box (word_box (words ! v)))"
  then show "\<exists>box. map_entity_to_words entity m words
                    = Inr (entity\<lparr>e_bbox := Some box,
                             e_words := Some (map (\<lambda>v. word_text (words ! v))
                                          (sorted_list_of_set (referenced_words m s t)))\<rparr>)
                 \<and> (\<forall>v\<in>referenced_words m s t. covers box (word_box (words ! v)))
                 \<and> (\<forall>c. (\<forall>v\<in>referenced_words m s t. covers c (word_box (words ! v)))
                        \<longrightarrow> covers c box)"
    using map_entity_to_words_mapped[of entity s t m words] by blast
next
  assume st: "e_start entity = Some (PyInt s) \<and> e_end entity = Some (PyInt t)"
    and z: "referenced_words m s t = {0} \<and> 0 < length words
          \<and> pixel_box (word_box (words ! 0))"
  from st have s1: "e_start entity = Some (PyInt s)" and s2: "e_end entity = Some (PyInt t)"
    by simp_all
  from z have R: "referenced_words m s t = {0}" and p: "pixel_box (word_box (words ! 0))"
    and ne: "referenced_words m s t \<noteq> {}"
    and ok: "\<forall>v\<in>referenced_words m s t. v < length words \<and> pixel_box (word_box (words ! v))"
    by simp_all
  from map_entity_to_words_mapped[OF s1 s2 ne ok]
  obtain box where r: "map_entity_to_words entity m words
           = Inr (entity\<lparr>e_bbox := Some box,
                         e_words := Some (map (\<lambda>v. word_text (words ! v))
                                      (sorted_list_of_set (referenced_words m s t)))\<rparr>)"
    and cov: "\<forall>v\<in>referenced_words m s t. covers box (word_box (words ! v))"
    and mini: "\<forall>c. (\<forall>v\<in>referenced_words m s t. covers c (word_box (words ! v)))
                \<longrightarrow> covers c box"
    by blast
  from pixel_boxD[OF p] obtain x y w h where b: "word_box (words ! 0) = [x, y, w, h]" by blast
  have "covers (word_box (words ! 0)) (word_box (words ! 0))" unfolding b by simp
  with mini R have "covers (word_box (words ! 0)) box" by simp
  moreover from cov R have "covers box (word_box (words ! 0))" by simp
  ultimately have "box = word_box (words ! 0)" using covers_antisym by blast
  with r R show "map_entity_to_words entity m words
            = Inr (entity\<lparr>e_bbox := Some (word_box (words ! 0)),
                          e_words := Some [word_text (words ! 0)]\<rparr>)"
    by simp
qed

theorem map_entity_to_words_union_box_witness:
  "map_entity_to_words
      \<lparr>e_start = Some (PyInt 0), e_end = Some (PyInt 5), e_entity = Some ''NAME'',
       e_bbox = None, e_words = None\<rparr>
      (\<lambda>j. if j < 5 then Some 0 else if 6 \<le> j \<and> j < 11 then Some 1 else None)
      [\<lparr>w_word = Some ''Hello'', w_bbox = Some [10, 20, 50, 12]\<rparr>,
       \<lparr>w_word = Some ''World'', w_bbox = Some [70, 18, 55, 15]\<rparr>]
     = Inr \<lparr>e_start = Some (PyInt 0), e_end = Some (PyInt 5), e_entity = Some ''NAME'',
            e_bbox = Some [10, 20, 50, 12], e_words = Some [''Hello'']\<rparr>
   \<and> map_entity_to_words
      \<lparr>e_start = Some (PyInt 5), e_end = Some (PyInt 6), e_entity = Some ''NAME'',
       e_bbox = None, e_words = None\<rparr>
      (\<lambda>j. if j < 5 then Some 0 else if 6 \<le> j \<and> j < 11 then Some 1 else None)
      [\<lparr>w_word = Some ''Hello'', w_bbox = Some [10, 20, 50, 12]\<rparr>,
       \<lparr>w_word = Some ''World'', w_bbox = Some [70, 18, 55, 15]\<rparr>]
     = Inr \<lparr>e_start = Some (PyInt 5), e_end = Some (PyInt 6), e_entity = Some ''NAME'',
            e_bbox = None, e_words = None\<rparr>
   \<and> (\<exists>box. map_entity_to_words
      \<lparr>e_start = Some (PyInt 3), e_end = Some (PyInt 8), e_entity = Some ''NAME'',
       e_bbox = None, e_words = None\<rparr>
      (\<lambda>j. if j < 5 then Some 0 else if 6 \<le> j \<and> j < 11 then Some 1 else None)
      [\<lparr>w_word = Some ''Hello'', w_bbox = Some [10, 20, 50, 12]\<rparr>,
       \<lparr>w_word = Some ''World'', w_bbox = Some [70, 18, 55, 15]\<rparr>]
     = Inr \<lparr>e_start = Some (PyInt 3), e_end = Some (PyInt 8), e_entity = Some ''NAME'',
            e_bbox = Some box, e_words = Some [''Hello'', ''World'']\<rparr>
     \<and> covers box [10, 20, 50, 12] \<and> covers box [70, 18, 55, 15]
     \<and> covers [10, 18, 115, 15] box)"
proof -
  let ?m = "\<lambda>j::nat. if j < 5 then Some (0::nat) else if 6 \<le> j \<and> j < 11 then Some 1 else None"
  let ?w0 = "\<lparr>w_word = Some ''Hello'', w_bbox = Some [10, 20, 50, 12]\<rparr>"
  let ?w1 = "\<lparr>w_word = Some ''World'', w_bbox = Some [70, 18, 55, 15]\<rparr>"
  let ?ws = "[?w0, ?w1]"
  let ?e = "\<lambda>s t. \<lparr>e_start = Some (PyInt s), e_end = Some (PyInt t), e_entity = Some ''NAME'',
       e_bbox = None, e_words = None\<rparr>"
  have r05: "referenced_words ?m 0 5 = {0}"
    unfolding collect_word_indices_eq[symmetric]
    by (simp add: collect_word_indices_def upto.simps)
  have r56: "referenced_words ?m 5 6 = {}"
    unfolding collect_word_indices_eq[symmetric]
    by (simp add: collect_word_indices_def upto.simps)
  have r38: "referenced_words ?m 3 8 = {0, 1}"
    unfolding collect_word_indices_eq[symmetric]
    by (auto simp: collect_word_indices_def upto.simps)
  have b: "word_box (?ws ! 0) = [10, 20, 50, 12]" "word_box (?ws ! 1) = [70, 18, 55, 15]"
    "word_text (?ws ! 0) = ''Hello''" "word_text (?ws ! 1) = ''World''"
    by (simp_all add: word_box_def word_text_def py_get_default_def)
  have p: "pixel_box (word_box (?ws ! 0))" "pixel_box (word_box (?ws ! 1))"
    unfolding b by (simp_all add: pixel_box_def)
  have a1: "map_entity_to_words (?e 0 5) ?m ?ws
      = Inr ((?e 0 5)\<lparr>e_bbox := Some (word_box (?ws ! 0)),
                      e_words := Some [word_text (?ws ! 0)]\<rparr>)"
    using map_entity_to_words_union_box[of "?e 0 5" 0 5 ?m ?ws] r05 p(1) by simp
  have a2: "map_entity_to_words (?e 5 6) ?m ?ws = Inr (?e 5 6)"
    using map_entity_to_words_union_box[of "?e 5 6" 5 6 ?m ?ws] r56 by simp
  have ok: "\<forall>v\<in>referenced_words ?m 3 8. v < length ?ws \<and> pixel_box (word_box (?ws ! v))"
    unfolding r38 using p by simp
  have ne: "referenced_words ?m 3 8 \<noteq> {}" unfolding r38 by simp
  have st: "e_start (?e 3 8) = Some (PyInt 3) \<and> e_end (?e 3 8) = Some (PyInt 8)" by simp
  from map_entity_to_words_union_box[of "?e 3 8" 3 8 ?m ?ws] st ne ok
  obtain box where x: "map_entity_to_words (?e 3 8) ?m ?ws
         = Inr ((?e 3 8)\<lparr>e_bbox := Some box,
                  e_words := Some (map (\<lambda>v. word_text (?ws ! v))
                                     (sorted_list_of_set (referenced_words ?m 3 8)))\<rparr>)"
    and cov: "\<forall>v\<in>referenced_words ?m 3 8. covers box (word_box (?ws ! v))"
    and mini: "\<forall>c. (\<forall>v\<in>referenced_words ?m 3 8. covers c (word_box (?ws ! v)))
                        \<longrightarrow> covers c box"
    by blast
  from cov have c01: "covers box [10, 20, 50, 12]" "covers box [70, 18, 55, 15]"
    unfolding r38 using b by simp_all
  have "\<forall>v\<in>referenced_words ?m 3 8. covers [10, 18, 115, 15] (word_box (?ws ! v))"
    unfolding r38 using b by simp
  with mini have c2: "covers [10, 18, 115, 15] box" by blast
  have x': "map_entity_to_words (?e 3 8) ?m ?ws
      = Inr \<lparr>e_start = Some (PyInt 3), e_end = Some (PyInt 8), e_entity = Some ''NAME'',
            e_bbox = Some box, e_words = Some [''Hello'', ''World'']\<rparr>"
    unfolding x r38 using b by simp
  from a1 a2 x' c01 c2 show ?thesis unfolding b by auto
qed

end
